theory Spec2Isabelle
  imports Complex_Main "HOL-Library.Word" "HOL-Library.Log_Nat"
begin

section \<open>Doubles\<close>

text \<open>
  The toolbox computes on C++ \<open>double\<close>: IEEE 754 binary64, in the default environment
  (round to nearest, ties to even; no trap on division by zero or on an invalid operation).
  A double is a NaN, a signed infinity, or a sign with a finite magnitude; the sign is
  \<open>True\<close> for a negative number, so \<open>Finite True 0\<close> is the negative zero. The
  magnitude is a rational number: every finite double is \<open>m * 2 ^ e\<close> for integers
  \<open>m < 2 ^ 53\<close> and \<open>- 1074 \<le> e \<le> 971\<close>. The type is larger than the set of
  doubles (any rational may stand as a magnitude); \<open>is_double\<close> below picks out the
  values a program can hold: the magnitudes that the rounding leaves as they are.
\<close>

datatype double = Finite bool rat | Infinity bool | NaN

definition pow2 :: "int \<Rightarrow> rat" where
  "pow2 k = (if 0 \<le> k then 2 ^ nat k else 1 / 2 ^ nat (- k))"

text \<open>The exponent \<open>e\<close> with \<open>2 ^ e \<le> x < 2 ^ (e + 1)\<close>, for a positive rational
  \<open>x = n / d\<close>: the bit lengths of \<open>n\<close> and \<open>d\<close> fix it up to one.\<close>

definition floor_log2 :: "rat \<Rightarrow> int" where
  "floor_log2 x =
     (let (n, d) = quotient_of x; k = bitlen n - bitlen d
      in if pow2 k \<le> x then k else k - 1)"

definition round_half_even :: "rat \<Rightarrow> int" where
  "round_half_even x =
     (let f = \<lfloor>x\<rfloor>; r = x - of_int f
      in if r < 1 / 2 then f
         else if 1 / 2 < r then f + 1
         else if even f then f else f + 1)"

text \<open>
  Rounding of a positive magnitude to binary64: 53 significant bits, the exponent not below
  that of the subnormals (\<open>- 1022\<close>), ties to the even significand. \<open>None\<close> is the
  overflow (the result is an infinity); \<open>Some 0\<close> is the underflow to zero.
\<close>

definition round_mag :: "rat \<Rightarrow> rat option" where
  "round_mag x =
     (let e = max (floor_log2 x) (- 1022);
          q = pow2 (e - 52);
          r = of_int (round_half_even (x / q)) * q
      in if pow2 1024 \<le> r then None else Some r)"

definition pack :: "bool \<Rightarrow> rat \<Rightarrow> double" where
  "pack s x =
     (if x = 0 then Finite s 0
      else case round_mag x of None \<Rightarrow> Infinity s | Some r \<Rightarrow> Finite s r)"

fun valof :: "bool \<Rightarrow> rat \<Rightarrow> rat" where
  "valof s m = (if s then - m else m)"

fun is_double :: "double \<Rightarrow> bool" where
  "is_double (Finite s m) = (m = 0 \<or> (0 < m \<and> round_mag m = Some m))"
| "is_double (Infinity s) = True"
| "is_double NaN = True"

fun is_finite :: "double \<Rightarrow> bool" where
  "is_finite (Finite s m) = True"
| "is_finite (Infinity s) = False"
| "is_finite NaN = False"

fun is_zero :: "double \<Rightarrow> bool" where
  "is_zero (Finite s m) = (m = 0)"
| "is_zero (Infinity s) = False"
| "is_zero NaN = False"

fun dneg :: "double \<Rightarrow> double" where
  "dneg (Finite s m) = Finite (\<not> s) m"
| "dneg (Infinity s) = Infinity (\<not> s)"
| "dneg NaN = NaN"

text \<open>\<open>a + b\<close>. An exact sum of zero is the positive zero, but for two negative zeros.\<close>

fun dadd :: "double \<Rightarrow> double \<Rightarrow> double" where
  "dadd NaN b = NaN"
| "dadd a NaN = NaN"
| "dadd (Infinity s) (Infinity t) = (if s = t then Infinity s else NaN)"
| "dadd (Infinity s) (Finite t n) = Infinity s"
| "dadd (Finite s m) (Infinity t) = Infinity t"
| "dadd (Finite s m) (Finite t n) =
     (let x = valof s m + valof t n
      in if x = 0 then Finite (s \<and> t) 0 else pack (x < 0) \<bar>x\<bar>)"

text \<open>\<open>a - b\<close> is \<open>a + (- b)\<close> in IEEE 754.\<close>

definition dsub :: "double \<Rightarrow> double \<Rightarrow> double" where
  "dsub a b = dadd a (dneg b)"

text \<open>\<open>a * b\<close>.\<close>

fun dmul :: "double \<Rightarrow> double \<Rightarrow> double" where
  "dmul NaN b = NaN"
| "dmul a NaN = NaN"
| "dmul (Infinity s) (Infinity t) = Infinity (s \<noteq> t)"
| "dmul (Infinity s) (Finite t n) = (if n = 0 then NaN else Infinity (s \<noteq> t))"
| "dmul (Finite s m) (Infinity t) = (if m = 0 then NaN else Infinity (s \<noteq> t))"
| "dmul (Finite s m) (Finite t n) = pack (s \<noteq> t) (m * n)"

text \<open>\<open>a / b\<close>. A division by zero does not trap: a nonzero number over zero is an
  infinity, zero over zero is a NaN.\<close>

fun ddiv :: "double \<Rightarrow> double \<Rightarrow> double" where
  "ddiv NaN b = NaN"
| "ddiv a NaN = NaN"
| "ddiv (Infinity s) (Infinity t) = NaN"
| "ddiv (Infinity s) (Finite t n) = Infinity (s \<noteq> t)"
| "ddiv (Finite s m) (Infinity t) = Finite (s \<noteq> t) 0"
| "ddiv (Finite s m) (Finite t n) =
     (if n = 0 then (if m = 0 then NaN else Infinity (s \<noteq> t))
      else pack (s \<noteq> t) (m / n))"

text \<open>\<open>std::fabs\<close> clears the sign.\<close>

fun fabs :: "double \<Rightarrow> double" where
  "fabs (Finite s m) = Finite False m"
| "fabs (Infinity s) = Infinity False"
| "fabs NaN = NaN"

text \<open>The comparisons \<open><\<close> and \<open><=\<close>: false when an operand is a NaN.\<close>

fun dless :: "double \<Rightarrow> double \<Rightarrow> bool" where
  "dless NaN b = False"
| "dless a NaN = False"
| "dless (Infinity s) (Infinity t) = (s \<and> \<not> t)"
| "dless (Infinity s) (Finite t n) = s"
| "dless (Finite s m) (Infinity t) = (\<not> t)"
| "dless (Finite s m) (Finite t n) = (valof s m < valof t n)"

fun dle :: "double \<Rightarrow> double \<Rightarrow> bool" where
  "dle NaN b = False"
| "dle a NaN = False"
| "dle (Infinity s) (Infinity t) = (s \<or> \<not> t)"
| "dle (Infinity s) (Finite t n) = s"
| "dle (Finite s m) (Infinity t) = (\<not> t)"
| "dle (Finite s m) (Finite t n) = (valof s m \<le> valof t n)"

text \<open>The operators \<open><\<close> and \<open><=\<close> on doubles, for the generic code of Core.hpp.\<close>

instantiation double :: ord
begin

definition less_double :: "double \<Rightarrow> double \<Rightarrow> bool" where
  "less_double a b = dless a b"

definition less_eq_double :: "double \<Rightarrow> double \<Rightarrow> bool" where
  "less_eq_double a b = dle a b"

instance ..

end

text \<open>\<open>std::min(a, b)\<close> is \<open>(b < a) ? b : a\<close>.\<close>

definition std_min :: "double \<Rightarrow> double \<Rightarrow> double" where
  "std_min a b = (if dless b a then b else a)"

text \<open>\<open>std::numeric_limits<double>::epsilon()\<close> is \<open>2 ^ - 52\<close>.\<close>

definition epsilon :: double where
  "epsilon = Finite False (1 / 2 ^ 52)"

section \<open>Utils/Core.hpp\<close>

definition checkEqualSmall :: "double \<Rightarrow> double \<Rightarrow> bool" where
  "checkEqualSmall a b = dle (fabs (dsub a b)) (dmul (Finite False 5) epsilon)"

definition checkEqualGeneral :: "double \<Rightarrow> double \<Rightarrow> bool" where
  "checkEqualGeneral a b =
     (if checkEqualSmall a b then True
      else dless (ddiv (fabs (dsub a b)) (std_min (fabs a) (fabs b))) epsilon)"

text \<open>
  \<open>veccmp\<close>: vectors are lists, read by index. The \<open>assert\<close> on the sizes is the
  \<open>None\<close> result; the loop over \<open>i = 0, ..., lhs.size() - 1\<close> is \<open>veccmp_loop\<close>.
\<close>

function veccmp_loop :: "'a::ord list \<Rightarrow> 'a list \<Rightarrow> nat \<Rightarrow> int" where
  "veccmp_loop lhs rhs i =
     (if i < length lhs then
        (if lhs ! i > rhs ! i then 1
         else if lhs ! i < rhs ! i then - 1
         else veccmp_loop lhs rhs (Suc i))
      else 0)"
  by pat_completeness auto
termination
  by (relation "measure (\<lambda>(lhs, rhs, i). length lhs - i)") auto

definition veccmp :: "'a::ord list \<Rightarrow> 'a list \<Rightarrow> int option" where
  "veccmp lhs rhs =
     (if length lhs = length rhs then Some (veccmp_loop lhs rhs 0) else None)"

text \<open>
  \<open>sequential_sorted_contains\<close>: the range-based \<open>for\<close> over \<open>v\<close>, one element at
  a time; \<open>==\<close> is the equality of the element type (integers and the like).
\<close>

fun sequential_sorted_contains :: "'a::ord list \<Rightarrow> 'a \<Rightarrow> bool" where
  "sequential_sorted_contains [] elem = False"
| "sequential_sorted_contains (e # v) elem =
     (if e < elem then sequential_sorted_contains v elem
      else if e = elem then True
      else False)"

text \<open>
  The scan in the words of the specification: some position holds the target, and no
  position before it holds a greater element.
\<close>

definition found_before_greater :: "'a::ord list \<Rightarrow> 'a \<Rightarrow> bool" where
  "found_before_greater v elem =
     list_ex (\<lambda>i. v ! i = elem \<and> list_all (\<lambda>j. \<not> elem < v ! j) [0..<i]) [0..<length v]"

text \<open>
  Tables are nested lists (\<open>boost::multi_array\<close>), read with \<open>t ! i ! j ! x\<close> and
  written with \<open>upd3\<close> and \<open>upd2\<close>. The source checks no index and no size: an
  index out of range is undefined behaviour there, and here a write out of range leaves
  the table as it is. Every theorem on tables assumes the shape the constructor gives.
\<close>

definition upd3 :: "'a list list list \<Rightarrow> nat \<Rightarrow> nat \<Rightarrow> nat \<Rightarrow> 'a \<Rightarrow> 'a list list list" where
  "upd3 t i j x v = t[i := (t ! i)[j := (t ! i ! j)[x := v]]]"

definition upd2 :: "'a list list \<Rightarrow> nat \<Rightarrow> nat \<Rightarrow> 'a \<Rightarrow> 'a list list" where
  "upd2 t i j v = t[i := (t ! i)[j := v]]"

definition shape3 :: "'a list list list \<Rightarrow> nat \<Rightarrow> nat \<Rightarrow> nat \<Rightarrow> bool" where
  "shape3 t d1 d2 d3 =
     (length t = d1 \<and> list_all (\<lambda>p. length p = d2 \<and> list_all (\<lambda>r. length r = d3) p) t)"

definition shape2 :: "'a list list \<Rightarrow> nat \<Rightarrow> nat \<Rightarrow> bool" where
  "shape2 t d1 d2 = (length t = d1 \<and> list_all (\<lambda>p. length p = d2) t)"

text \<open>
  \<open>copyTable3D\<close>: the input is any container with three chained \<open>operator[]\<close>, so it
  is the function from three indices to the element read there. The three nested
  \<open>for\<close> loops are three folds over \<open>0, ..., d - 1\<close>.
\<close>

definition copyTable3D ::
  "(nat \<Rightarrow> nat \<Rightarrow> nat \<Rightarrow> 'a) \<Rightarrow> 'a list list list \<Rightarrow> nat \<Rightarrow> nat \<Rightarrow> nat \<Rightarrow> 'a list list list" where
  "copyTable3D inp out d1 d2 d3 =
     fold (\<lambda>i. fold (\<lambda>j. fold (\<lambda>x out. upd3 out i j x (inp i j x)) [0..<d3]) [0..<d2])
       [0..<d1] out"

section \<open>MDP/Experience.hpp\<close>

text \<open>\<open>unsigned long\<close> is 64 bits wide (LP64); its arithmetic wraps around.\<close>

type_synonym ulong = "64 word"

record experience =
  S :: nat
  A :: nat
  visits :: "ulong list list list"
  visitsSum :: "ulong list list"
  rewards :: "double list list list"
  rewardsSum :: "double list list"

definition well_shaped :: "experience \<Rightarrow> bool" where
  "well_shaped e =
     (shape3 (visits e) (S e) (A e) (S e) \<and> shape2 (visitsSum e) (S e) (A e) \<and>
      shape3 (rewards e) (S e) (A e) (S e) \<and> shape2 (rewardsSum e) (S e) (A e))"

definition setVisits :: "(nat \<Rightarrow> nat \<Rightarrow> nat \<Rightarrow> ulong) \<Rightarrow> experience \<Rightarrow> experience" where
  "setVisits v e =
     (let e1 = e\<lparr>visits := copyTable3D v (visits e) (S e) (A e) (S e)\<rparr>
      in e1\<lparr>visitsSum :=
           fold (\<lambda>s. fold (\<lambda>a. fold (\<lambda>s1 vs.
               upd2 vs s a (vs ! s ! a + visits e1 ! s ! a ! s1)) [0..<S e1]) [0..<A e1])
             [0..<S e1] (visitsSum e1)\<rparr>)"

definition setRewards :: "(nat \<Rightarrow> nat \<Rightarrow> nat \<Rightarrow> double) \<Rightarrow> experience \<Rightarrow> experience" where
  "setRewards r e =
     (let e1 = e\<lparr>rewards := copyTable3D r (rewards e) (S e) (A e) (S e)\<rparr>
      in e1\<lparr>rewardsSum :=
           fold (\<lambda>s. fold (\<lambda>a. fold (\<lambda>s1 rs.
               upd2 rs s a (dadd (rs ! s ! a) (rewards e1 ! s ! a ! s1))) [0..<S e1]) [0..<A e1])
             [0..<S e1] (rewardsSum e1)\<rparr>)"

text \<open>
  Modelled from the spec: the constructor, \<open>record\<close>, \<open>reset\<close> and the getters are
  declared in Experience.hpp and defined in a file that is not among the sources. The
  constructor allocates the four tables with shapes \<open>S \<times> A \<times> S\<close> and \<open>S \<times> A\<close>, all
  zero; \<open>record\<close> increments \<open>visits[s][a][s1]\<close> and \<open>visitsSum[s][a]\<close> by 1 and adds
  the reward to \<open>rewards[s][a][s1]\<close> and to \<open>rewardsSum[s][a]\<close>; \<open>reset\<close> sets every
  cell of the four tables to zero; a getter reads one cell.
\<close>

definition Experience :: "nat \<Rightarrow> nat \<Rightarrow> experience" where
  "Experience s a =
     \<lparr>S = s, A = a,
      visits = replicate s (replicate a (replicate s 0)),
      visitsSum = replicate s (replicate a 0),
      rewards = replicate s (replicate a (replicate s (Finite False 0))),
      rewardsSum = replicate s (replicate a (Finite False 0))\<rparr>"

definition record' :: "nat \<Rightarrow> nat \<Rightarrow> nat \<Rightarrow> double \<Rightarrow> experience \<Rightarrow> experience" where
  "record' s a s1 rew e =
     e\<lparr>visits := upd3 (visits e) s a s1 (visits e ! s ! a ! s1 + 1),
       visitsSum := upd2 (visitsSum e) s a (visitsSum e ! s ! a + 1),
       rewards := upd3 (rewards e) s a s1 (dadd (rewards e ! s ! a ! s1) rew),
       rewardsSum := upd2 (rewardsSum e) s a (dadd (rewardsSum e ! s ! a) rew)\<rparr>"

definition reset :: "experience \<Rightarrow> experience" where
  "reset e =
     e\<lparr>visits := map (map (map (\<lambda>c. 0))) (visits e),
       visitsSum := map (map (\<lambda>c. 0)) (visitsSum e),
       rewards := map (map (map (\<lambda>c. Finite False 0))) (rewards e),
       rewardsSum := map (map (\<lambda>c. Finite False 0)) (rewardsSum e)\<rparr>"

definition getVisits :: "experience \<Rightarrow> nat \<Rightarrow> nat \<Rightarrow> nat \<Rightarrow> ulong" where
  "getVisits e s a s1 = visits e ! s ! a ! s1"

definition getVisitsSum :: "experience \<Rightarrow> nat \<Rightarrow> nat \<Rightarrow> ulong" where
  "getVisitsSum e s a = visitsSum e ! s ! a"

definition getReward :: "experience \<Rightarrow> nat \<Rightarrow> nat \<Rightarrow> nat \<Rightarrow> double" where
  "getReward e s a s1 = rewards e ! s ! a ! s1"

definition getRewardSum :: "experience \<Rightarrow> nat \<Rightarrow> nat \<Rightarrow> double" where
  "getRewardSum e s a = rewardsSum e ! s ! a"

text \<open>
  The sums a marginal is compared with: over the last axis, in the order of the indices;
  on doubles each addition rounds.
\<close>

definition dsum :: "double list \<Rightarrow> double" where
  "dsum row = foldl dadd (Finite False 0) row"

definition visits_consistent :: "experience \<Rightarrow> bool" where
  "visits_consistent e =
     list_all (\<lambda>s. list_all (\<lambda>a. visitsSum e ! s ! a = sum_list (visits e ! s ! a)) [0..<A e])
       [0..<S e]"

definition rewards_consistent :: "experience \<Rightarrow> bool" where
  "rewards_consistent e =
     list_all (\<lambda>s. list_all (\<lambda>a. rewardsSum e ! s ! a = dsum (rewards e ! s ! a)) [0..<A e])
       [0..<S e]"

text \<open>
  An external container given as a nested list (a \<open>std::vector\<close> of vectors of
  vectors, say), read by \<open>operator[]\<close>.
\<close>

definition table_of :: "'a list list list \<Rightarrow> nat \<Rightarrow> nat \<Rightarrow> nat \<Rightarrow> 'a" where
  "table_of t i j x = t ! i ! j ! x"

text \<open>
  Sequences of \<open>record\<close> and \<open>reset\<close> calls on a table. An index out of range in
  \<open>record\<close> is a broken precondition: the run has no result (\<open>None\<close>).
\<close>

datatype event = Record nat nat nat double | Reset

fun in_range :: "experience \<Rightarrow> event \<Rightarrow> bool" where
  "in_range e (Record s a s1 rew) = (s < S e \<and> a < A e \<and> s1 < S e)"
| "in_range e Reset = True"

fun apply_event :: "experience \<Rightarrow> event \<Rightarrow> experience" where
  "apply_event e (Record s a s1 rew) = record' s a s1 rew e"
| "apply_event e Reset = reset e"

fun run :: "experience \<Rightarrow> event list \<Rightarrow> experience option" where
  "run e [] = Some e"
| "run e (x # xs) = (if in_range e x then run (apply_event e x) xs else None)"

text \<open>
  The rewards recorded for the pair \<open>(s, a)\<close> since the last \<open>reset\<close>, added in the
  order of the calls, each addition rounded.
\<close>

fun recorded_rewards :: "nat \<Rightarrow> nat \<Rightarrow> double \<Rightarrow> event list \<Rightarrow> double" where
  "recorded_rewards s a acc [] = acc"
| "recorded_rewards s a acc (Record s' a' s1 rew # xs) =
     recorded_rewards s a (if s' = s \<and> a' = a then dadd acc rew else acc) xs"
| "recorded_rewards s a acc (Reset # xs) = recorded_rewards s a (Finite False 0) xs"

text \<open>
  Additions that do not round. \<open>dval\<close> is the number a finite double stands for;
  \<open>exact_add a b\<close> says that \<open>a\<close> and \<open>b\<close> are finite and their sum is a double,
  so that \<open>a + b\<close> is computed without rounding. \<open>exact_sum acc row\<close> says so of every
  addition of the sum of \<open>row\<close> onto \<open>acc\<close> in the order of the indices, and
  \<open>exact_run e ops\<close> of the two additions of every \<open>record\<close> call of \<open>ops\<close> (onto
  the cell and onto the marginal), the recorded rewards being doubles.
\<close>

fun dval :: "double \<Rightarrow> rat" where
  "dval (Finite s m) = valof s m"
| "dval (Infinity s) = 0"
| "dval NaN = 0"

fun exact_add :: "double \<Rightarrow> double \<Rightarrow> bool" where
  "exact_add (Finite s m) (Finite t n) =
     (let x = valof s m + valof t n in x = 0 \<or> round_mag \<bar>x\<bar> = Some \<bar>x\<bar>)"
| "exact_add a b = False"

fun exact_sum :: "double \<Rightarrow> double list \<Rightarrow> bool" where
  "exact_sum acc [] = True"
| "exact_sum acc (c # cs) = (exact_add acc c \<and> exact_sum (dadd acc c) cs)"

fun exact_run :: "experience \<Rightarrow> event list \<Rightarrow> bool" where
  "exact_run e [] = True"
| "exact_run e (Record s a s1 rew # xs) =
     (is_double rew \<and> exact_add (rewards e ! s ! a ! s1) rew \<and>
      exact_add (rewardsSum e ! s ! a) rew \<and> exact_run (record' s a s1 rew e) xs)"
| "exact_run e (Reset # xs) = exact_run (reset e) xs"

text \<open>A finite double with a magnitude that is not negative, other than the negative zero.\<close>

fun plain :: "double \<Rightarrow> bool" where
  "plain (Finite s m) = (if m = 0 then \<not> s else 0 < m)"
| "plain (Infinity s) = False"
| "plain NaN = False"

text \<open>
  The reward tables of a run without rounding: every cell and every marginal is such a
  number, and the number of the marginal is the sum of the numbers of its row.
\<close>

definition rewards_exact :: "experience \<Rightarrow> bool" where
  "rewards_exact e =
     list_all (\<lambda>s. list_all (\<lambda>a.
         plain (rewardsSum e ! s ! a) \<and> list_all plain (rewards e ! s ! a) \<and>
         dval (rewardsSum e ! s ! a) = sum_list (map dval (rewards e ! s ! a))) [0..<A e])
       [0..<S e]"

section \<open>Core.hpp: the sorted scan\<close>

lemma found_before_greater_iff:
  "found_before_greater v elem \<longleftrightarrow>
     (\<exists>i < length v. v ! i = elem \<and> (\<forall>j < i. \<not> elem < v ! j))"
  by (auto simp: found_before_greater_def list_ex_iff list_all_iff)

lemma ssc_scan:
  fixes v :: "'a::linorder list"
  shows "sequential_sorted_contains v elem = found_before_greater v elem"
proof (induction v)
  case Nil
  show ?case by (simp add: found_before_greater_iff)
next
  case (Cons e v)
  show ?case
  proof (cases "e < elem")
    case True
    have "found_before_greater (e # v) elem = found_before_greater v elem"
      unfolding found_before_greater_iff
    proof
      assume "\<exists>i<length (e # v). (e # v) ! i = elem \<and> (\<forall>j<i. \<not> elem < (e # v) ! j)"
      then obtain i where i: "i < length (e # v)" "(e # v) ! i = elem"
        "\<forall>j<i. \<not> elem < (e # v) ! j" by blast
      from True i(2) have "i \<noteq> 0" by (cases i) auto
      then obtain k where k: "i = Suc k" by (cases i) auto
      have "\<forall>j<k. \<not> elem < v ! j"
      proof (intro allI impI)
        fix j assume "j < k"
        then have "Suc j < i" using k by simp
        with i(3) have "\<not> elem < (e # v) ! Suc j" by blast
        then show "\<not> elem < v ! j" by simp
      qed
      with i k show "\<exists>i<length v. v ! i = elem \<and> (\<forall>j<i. \<not> elem < v ! j)"
        by auto
    next
      assume "\<exists>i<length v. v ! i = elem \<and> (\<forall>j<i. \<not> elem < v ! j)"
      then obtain i where i: "i < length v" "v ! i = elem" "\<forall>j<i. \<not> elem < v ! j"
        by blast
      have "\<forall>j<Suc i. \<not> elem < (e # v) ! j"
      proof (intro allI impI)
        fix j assume "j < Suc i"
        then show "\<not> elem < (e # v) ! j"
          using True i(3) by (cases j) auto
      qed
      with i show "\<exists>i<length (e # v). (e # v) ! i = elem \<and> (\<forall>j<i. \<not> elem < (e # v) ! j)"
        by (intro exI [of _ "Suc i"]) simp
    qed
    with True Cons show ?thesis by simp
  next
    case False
    show ?thesis
    proof (cases "e = elem")
      case True
      then have "found_before_greater (e # v) elem"
        unfolding found_before_greater_iff by (intro exI [of _ 0]) simp
      with True show ?thesis by simp
    next
      case ne: False
      with False have gt: "elem < e" by simp
      have "\<not> found_before_greater (e # v) elem"
        unfolding found_before_greater_iff
      proof
        assume "\<exists>i<length (e # v). (e # v) ! i = elem \<and> (\<forall>j<i. \<not> elem < (e # v) ! j)"
        then obtain i where i: "(e # v) ! i = elem" "\<forall>j<i. \<not> elem < (e # v) ! j"
          by blast
        show False
        proof (cases i)
          case 0
          with i(1) ne show False by simp
        next
          case (Suc k)
          with i(2) have "\<not> elem < (e # v) ! 0" by blast
          with gt show False by simp
        qed
      qed
      with False ne show ?thesis by simp
    qed
  qed
qed

lemma ssc_sorted_member:
  fixes v :: "'a::linorder list"
  assumes "sorted v"
  shows "sequential_sorted_contains v elem = (elem \<in> set v)"
  using assms by (induction v) auto

lemma ssc_suffix_irrelevant:
  fixes x :: "'a::ord"
  assumes "\<not> x < elem"
  shows "sequential_sorted_contains (xs @ x # ys) elem = sequential_sorted_contains (xs @ [x]) elem"
  using assms by (induction xs) auto

lemma ssc_greater_first:
  fixes x :: "'a::order"
  assumes "elem < x" "elem \<notin> set xs"
  shows "\<not> sequential_sorted_contains (xs @ x # ys) elem"
  using assms by (induction xs) auto

text \<open>
  C5. On a sequence sorted in ascending order, \<open>sequential_sorted_contains v elem\<close> is
  true exactly when the scan from the left meets an element equal to \<open>elem\<close> before any
  element greater than \<open>elem\<close>, which on a sorted sequence is membership; on
  \<open>[1, 3, 5, 7]\<close> it is true for 5 and false for 4 and for 8.
\<close>

theorem sequential_sorted_contains_sorted:
  fixes v :: "'a::linorder list"
  assumes "sorted v"
  shows "(sequential_sorted_contains v elem \<longleftrightarrow> found_before_greater v elem) \<and>
         (sequential_sorted_contains v elem \<longleftrightarrow> elem \<in> set v) \<and>
         sequential_sorted_contains [1, 3, 5, 7 :: int] 5 \<and>
         \<not> sequential_sorted_contains [1, 3, 5, 7 :: int] 4 \<and>
         \<not> sequential_sorted_contains [1, 3, 5, 7 :: int] 8"
proof -
  have "sequential_sorted_contains v elem \<longleftrightarrow> found_before_greater v elem"
    by (rule ssc_scan)
  moreover have "sequential_sorted_contains v elem \<longleftrightarrow> elem \<in> set v"
    using assms by (rule ssc_sorted_member)
  ultimately show ?thesis by simp
qed

theorem sequential_sorted_contains_sorted_witness:
  "sorted [2, 4, 4, 9 :: nat] \<and>
   sequential_sorted_contains [2, 4, 4, 9 :: nat] 4 \<and>
   found_before_greater [2, 4, 4, 9 :: nat] 4 \<and>
   \<not> sequential_sorted_contains [2, 4, 4, 9 :: nat] 5 \<and>
   \<not> found_before_greater [2, 4, 4, 9 :: nat] 5"
proof -
  have h: "sorted [2, 4, 4, 9 :: nat]" by simp
  have m4: "(4 :: nat) \<in> set [2, 4, 4, 9]" and m5: "(5 :: nat) \<notin> set [2, 4, 4, 9]"
    by simp_all
  from sequential_sorted_contains_sorted [OF h, of 4] m4
  have "sequential_sorted_contains [2, 4, 4, 9 :: nat] 4 \<and>
        found_before_greater [2, 4, 4, 9 :: nat] 4" by blast
  moreover from sequential_sorted_contains_sorted [OF h, of 5] m5
  have "\<not> sequential_sorted_contains [2, 4, 4, 9 :: nat] 5 \<and>
        \<not> found_before_greater [2, 4, 4, 9 :: nat] 5" by blast
  ultimately show ?thesis using h by blast
qed

text \<open>
  C10. The scan stops at the first element that is not less than the target: what follows
  that element does not change the result. So when an element greater than the target
  stands before the first occurrence of the target, the result is false, although the
  target is in the sequence (as for 3 in \<open>[5, 3]\<close>).
\<close>

theorem sequential_sorted_contains_stops:
  fixes x :: "'a::order"
  shows "(\<not> x < elem \<longrightarrow>
            sequential_sorted_contains (xs @ x # ys) elem =
            sequential_sorted_contains (xs @ [x]) elem) \<and>
         (elem < x \<and> elem \<notin> set xs \<and> elem \<in> set ys \<longrightarrow>
            \<not> sequential_sorted_contains (xs @ x # ys) elem)"
  using ssc_suffix_irrelevant [of x elem xs ys] ssc_greater_first [of elem x xs ys]
  by blast

theorem sequential_sorted_contains_stops_witness:
  "\<not> (5 :: int) < 3 \<and> (3 :: int) < 5 \<and> (3 :: int) \<notin> set [1] \<and> (3 :: int) \<in> set [3, 4] \<and>
   sequential_sorted_contains ([1] @ 5 # [3, 4 :: int]) 3 =
     sequential_sorted_contains ([1] @ [5 :: int]) 3 \<and>
   \<not> sequential_sorted_contains ([1] @ 5 # [3, 4 :: int]) 3"
  using sequential_sorted_contains_stops [of "5 :: int" 3 "[1]" "[3, 4]"]
  by simp

section \<open>Core.hpp: veccmp\<close>

declare veccmp_loop.simps [simp del]

lemma veccmp_loop_neg:
  assumes "length a = length b"
    and "\<And>k. k < length a \<Longrightarrow> \<not> (a ! k < b ! k \<and> b ! k < a ! k)"
  shows "veccmp_loop b a i = - veccmp_loop a b i"
  using assms
proof (induction a b i rule: veccmp_loop.induct)
  case (1 lhs rhs i)
  show ?case
  proof (cases "i < length lhs")
    case True
    with "1.prems" have asym: "\<not> (lhs ! i < rhs ! i \<and> rhs ! i < lhs ! i)" by blast
    show ?thesis
    proof (cases "rhs ! i < lhs ! i")
      case gt: True
      with asym True "1.prems"(1) show ?thesis
        by (simp add: veccmp_loop.simps [of lhs rhs i] veccmp_loop.simps [of rhs lhs i])
    next
      case ngt: False
      show ?thesis
      proof (cases "lhs ! i < rhs ! i")
        case lt: True
        with ngt True "1.prems"(1) show ?thesis
          by (simp add: veccmp_loop.simps [of lhs rhs i] veccmp_loop.simps [of rhs lhs i])
      next
        case nlt: False
        from "1.IH" [OF True _ nlt "1.prems"] ngt
        have "veccmp_loop rhs lhs (Suc i) = - veccmp_loop lhs rhs (Suc i)" by simp
        with ngt nlt True "1.prems"(1) show ?thesis
          by (simp add: veccmp_loop.simps [of lhs rhs i] veccmp_loop.simps [of rhs lhs i])
      qed
    qed
  next
    case False
    with "1.prems"(1) show ?thesis
      by (simp add: veccmp_loop.simps [of lhs rhs i] veccmp_loop.simps [of rhs lhs i])
  qed
qed

lemma veccmp_loop_equal_prefix:
  assumes "\<And>j. i \<le> j \<Longrightarrow> j < k \<Longrightarrow> \<not> b ! j < a ! j \<and> \<not> a ! j < b ! j" and "i \<le> k" and "k \<le> length a"
  shows "veccmp_loop a b i = veccmp_loop a b k"
  using assms
proof (induction a b i rule: veccmp_loop.induct)
  case (1 lhs rhs i)
  show ?case
  proof (cases "i = k")
    case True
    then show ?thesis by simp
  next
    case False
    with "1.prems" have lt: "i < k" "i < length lhs" by auto
    with "1.prems"(1) [of i] have eq: "\<not> rhs ! i < lhs ! i" "\<not> lhs ! i < rhs ! i" by auto
    have "veccmp_loop lhs rhs (Suc i) = veccmp_loop lhs rhs k"
      using "1.IH" [OF lt(2) eq] "1.prems" lt by simp
    with lt eq show ?thesis
      by (simp add: veccmp_loop.simps [of lhs rhs i])
  qed
qed

lemma veccmp_loop_self:
  fixes v :: "'a::preorder list"
  shows "veccmp_loop v v i = 0"
proof (induction "length v - i" arbitrary: i)
  case 0
  then show ?case by (simp add: veccmp_loop.simps [of v v i])
next
  case (Suc n)
  then have "veccmp_loop v v (Suc i) = 0" by simp
  with Suc.hyps(2) show ?case by (simp add: veccmp_loop.simps [of v v i])
qed

lemma veccmp_loop_at_difference:
  assumes "k < length a"
    and "\<And>j. j < k \<Longrightarrow> \<not> b ! j < a ! j \<and> \<not> a ! j < b ! j"
  shows "veccmp_loop a b 0 =
           (if b ! k < a ! k then 1 else if a ! k < b ! k then - 1 else veccmp_loop a b (Suc k))"
proof -
  have "veccmp_loop a b 0 = veccmp_loop a b k"
    using assms by (intro veccmp_loop_equal_prefix) auto
  with assms(1) show ?thesis
    by (simp add: veccmp_loop.simps [of a b k])
qed

lemma veccmp_loop_no_difference:
  assumes "\<And>j. j < length a \<Longrightarrow> \<not> b ! j < a ! j \<and> \<not> a ! j < b ! j"
  shows "veccmp_loop a b 0 = 0"
proof -
  have "veccmp_loop a b 0 = veccmp_loop a b (length a)"
    using assms by (intro veccmp_loop_equal_prefix) auto
  then show ?thesis
    by (simp add: veccmp_loop.simps [of a b "length a"])
qed

text \<open>
  C6. For vectors \<open>a\<close> and \<open>b\<close> of equal length \<open>veccmp a b = - veccmp b a\<close>, and
  \<open>veccmp v v = 0\<close>; the result is \<open>1\<close> when the first index where the vectors
  differ has \<open>lhs > rhs\<close>, \<open>- 1\<close> when it has \<open>lhs < rhs\<close>, and \<open>0\<close> when no index
  differs.
\<close>

theorem veccmp_antisymmetric:
  fixes a b v :: "'a::linorder list"
  shows "(length a = length b \<longrightarrow>
            (\<exists>r. veccmp a b = Some r \<and> veccmp b a = Some (- r))) \<and>
         veccmp v v = Some 0 \<and>
         (length a = length b \<and> k < length a \<and> (\<forall>j < k. a ! j = b ! j) \<and> a ! k > b ! k \<longrightarrow>
            veccmp a b = Some 1) \<and>
         (length a = length b \<and> k < length a \<and> (\<forall>j < k. a ! j = b ! j) \<and> a ! k < b ! k \<longrightarrow>
            veccmp a b = Some (- 1)) \<and>
         (length a = length b \<and> (\<forall>j < length a. a ! j = b ! j) \<longrightarrow> veccmp a b = Some 0)"
proof (intro conjI impI)
  assume len: "length a = length b"
  have "veccmp_loop b a 0 = - veccmp_loop a b 0"
    using len by (rule veccmp_loop_neg) auto
  with len show "\<exists>r. veccmp a b = Some r \<and> veccmp b a = Some (- r)"
    by (simp add: veccmp_def)
next
  show "veccmp v v = Some 0"
    by (simp add: veccmp_def veccmp_loop_self)
next
  assume h: "length a = length b \<and> k < length a \<and> (\<forall>j < k. a ! j = b ! j) \<and> a ! k > b ! k"
  then have "veccmp_loop a b 0 = 1"
    by (subst veccmp_loop_at_difference [of k]) auto
  with h show "veccmp a b = Some 1"
    by (simp add: veccmp_def)
next
  assume h: "length a = length b \<and> k < length a \<and> (\<forall>j < k. a ! j = b ! j) \<and> a ! k < b ! k"
  then have "veccmp_loop a b 0 = - 1"
    by (subst veccmp_loop_at_difference [of k]) auto
  with h show "veccmp a b = Some (- 1)"
    by (simp add: veccmp_def)
next
  assume h: "length a = length b \<and> (\<forall>j < length a. a ! j = b ! j)"
  then have "veccmp_loop a b 0 = 0"
    by (intro veccmp_loop_no_difference) auto
  with h show "veccmp a b = Some 0"
    by (simp add: veccmp_def)
qed

theorem veccmp_antisymmetric_witness:
  "length [1, 2, 7 :: int] = length [1, 2, 4 :: int] \<and> (2 :: nat) < length [1, 2, 7 :: int] \<and>
   veccmp [1, 2, 7 :: int] [1, 2, 4] = Some 1 \<and>
   veccmp [1, 2, 4 :: int] [1, 2, 7] = Some (- 1) \<and>
   veccmp [1, 2, 7 :: int] [1, 2, 7] = Some 0"
proof -
  have len: "length [1, 2, 7 :: int] = length [1, 2, 4 :: int]" by simp
  have k: "(2 :: nat) < length [1, 2, 7 :: int]" by simp
  have pre: "\<forall>j < 2. [1, 2, 7 :: int] ! j = [1, 2, 4 :: int] ! j"
    by (simp add: less_Suc_eq numeral_2_eq_2)
  have gt: "[1, 2, 7 :: int] ! 2 > [1, 2, 4 :: int] ! 2" by simp
  note w = veccmp_antisymmetric [of "[1, 2, 7 :: int]" "[1, 2, 4]" "[1, 2, 7]" 2]
  from w len k pre gt have one: "veccmp [1, 2, 7 :: int] [1, 2, 4] = Some 1" by blast
  from w len obtain r where
    "veccmp [1, 2, 7 :: int] [1, 2, 4] = Some r" "veccmp [1, 2, 4 :: int] [1, 2, 7] = Some (- r)"
    by blast
  with one have "veccmp [1, 2, 4 :: int] [1, 2, 7] = Some (- 1)" by simp
  moreover from w have "veccmp [1, 2, 7 :: int] [1, 2, 7] = Some 0" by blast
  ultimately show ?thesis using len k one by blast
qed

section \<open>Doubles: the rounding\<close>

lemma pow2_powi: "pow2 k = 2 powi k"
  by (simp add: pow2_def power_int_def field_simps)

lemma of_int_bitlen_bounds:
  assumes "0 < n"
  shows "(2::rat) powi (bitlen n - 1) \<le> of_int n \<and> of_int n < (2::rat) powi (bitlen n)"
proof -
  from bitlen_bounds [OF assms]
  have b: "2 ^ nat (bitlen n - 1) \<le> n" "n < 2 ^ nat (bitlen n)" by simp_all
  have p: "1 \<le> bitlen n"
    using assms bitlen_eq_zero_iff [of n] bitlen_nonneg [of n] by linarith
  from b(1) have "(of_int (2 ^ nat (bitlen n - 1)) :: rat) \<le> of_int n"
    by (simp only: of_int_le_iff)
  moreover from b(2) have "(of_int n :: rat) < of_int (2 ^ nat (bitlen n))"
    by (simp only: of_int_less_iff)
  ultimately show ?thesis
    using p by (simp add: power_int_def)
qed

lemma floor_log2_bounds:
  assumes "0 < x"
  shows "pow2 (floor_log2 x) \<le> x \<and> x < pow2 (floor_log2 x + 1)"
proof -
  obtain n d where q: "quotient_of x = (n, d)" by (cases "quotient_of x")
  then have d: "0 < d" and x: "x = of_int n / of_int d"
    using quotient_of_denom_pos [OF q] quotient_of_div [OF q] by simp_all
  with assms have n: "0 < n"
    by (simp add: zero_less_divide_iff)
  define k where "k = bitlen n - bitlen d"
  note bn = of_int_bitlen_bounds [OF n] and bd = of_int_bitlen_bounds [OF d]
  have dpos: "(0::rat) < 2 powi (bitlen d - 1)" by simp
  have upper: "x < 2 powi (k + 1)"
  proof -
    have "of_int n / of_int d < (2::rat) powi (bitlen n) / 2 powi (bitlen d - 1)"
      using bn bd n dpos by (intro frac_less) simp_all
    also have "\<dots> = 2 powi (bitlen n - (bitlen d - 1))"
      by (simp add: power_int_diff)
    finally show ?thesis by (simp add: x k_def algebra_simps)
  qed
  have lower: "2 powi (k - 1) \<le> x"
  proof -
    have "(2::rat) powi (bitlen n - 1) / 2 powi (bitlen d) \<le> of_int n / of_int d"
      using bn bd n d by (intro frac_le) simp_all
    moreover have "(2::rat) powi (bitlen n - 1) / 2 powi (bitlen d) = 2 powi (bitlen n - 1 - bitlen d)"
      by (simp add: power_int_diff)
    ultimately show ?thesis by (simp add: x k_def algebra_simps)
  qed
  have fl: "floor_log2 x = (if 2 powi k \<le> x then k else k - 1)"
    by (simp add: floor_log2_def q k_def pow2_powi)
  show ?thesis
  proof (cases "2 powi k \<le> x")
    case True
    with upper fl show ?thesis by (simp add: pow2_powi)
  next
    case False
    with lower fl show ?thesis by (simp add: pow2_powi)
  qed
qed

lemma round_half_even_cases:
  "round_half_even y = \<lfloor>y\<rfloor> \<and> y - of_int \<lfloor>y\<rfloor> \<le> 1 / 2 \<or>
   round_half_even y = \<lfloor>y\<rfloor> + 1 \<and> 1 / 2 \<le> y - of_int \<lfloor>y\<rfloor>"
  by (auto simp: round_half_even_def Let_def)

lemma round_half_even_near: "\<bar>of_int (round_half_even y) - y\<bar> \<le> 1 / 2"
proof -
  have "of_int \<lfloor>y\<rfloor> \<le> y" "y < of_int \<lfloor>y\<rfloor> + 1" by linarith+
  with round_half_even_cases [of y] show ?thesis
    by (auto simp: abs_le_iff)
qed

lemma round_half_even_le:
  assumes "y \<le> of_int m"
  shows "round_half_even y \<le> m"
proof -
  from assms have fl: "\<lfloor>y\<rfloor> \<le> m" by (simp add: floor_le_iff)
  show ?thesis
  proof (cases "round_half_even y = \<lfloor>y\<rfloor>")
    case True
    with fl show ?thesis by simp
  next
    case False
    with round_half_even_cases [of y]
    have up: "round_half_even y = \<lfloor>y\<rfloor> + 1" and fr: "1 / 2 \<le> y - of_int \<lfloor>y\<rfloor>" by auto
    from fr have "of_int \<lfloor>y\<rfloor> < y" by simp
    with assms have "(of_int \<lfloor>y\<rfloor> :: rat) < of_int m" by linarith
    then have "\<lfloor>y\<rfloor> < m" by (simp only: of_int_less_iff)
    with up show ?thesis by simp
  qed
qed

lemma round_half_even_nonneg:
  assumes "0 \<le> y"
  shows "0 \<le> round_half_even y"
proof -
  from assms have "0 \<le> \<lfloor>y\<rfloor>" by simp
  with round_half_even_cases [of y] show ?thesis by auto
qed

text \<open>
  The rounded magnitude is a multiple of the quantum \<open>2 ^ (e - 52)\<close> of the number's
  binade (of the subnormals, below \<open>2 ^ - 1022\<close>), with a significand of at most
  \<open>2 ^ 53\<close>, at most half a quantum away from the number, and below \<open>2 ^ 1024\<close>.
\<close>

lemma round_mag_sound:
  assumes "0 < x" "round_mag x = Some r"
  defines "q \<equiv> pow2 (max (floor_log2 x) (- 1022) - 52)"
  shows "\<exists>n. 0 \<le> n \<and> n \<le> 2 ^ 53 \<and> r = of_int n * q \<and> \<bar>r - x\<bar> \<le> q / 2 \<and> r < pow2 1024"
proof -
  define e where "e = max (floor_log2 x) (- 1022)"
  define n where "n = round_half_even (x / q)"
  have qpos: "0 < q" by (simp add: q_def pow2_powi)
  from assms(2) have r: "r = of_int n * q" and fin: "r < pow2 1024"
    by (simp_all add: round_mag_def Let_def n_def q_def split: if_splits)
  have "x < pow2 (floor_log2 x + 1)"
    using floor_log2_bounds [OF assms(1)] by simp
  also have "\<dots> \<le> pow2 (e + 1)"
    by (simp add: pow2_powi e_def power_int_increasing)
  finally have "x / q < pow2 (e + 1) / q"
    using qpos by (simp add: divide_strict_right_mono)
  also have "pow2 (e + 1) / q = 2 powi (e + 1) / 2 powi (e - 52)"
    by (simp only: q_def e_def pow2_powi)
  also have "\<dots> = 2 powi (e + 1 - (e - 52))"
    by (rule power_int_diff [symmetric]) simp
  also have "e + 1 - (e - 52) = 53" by simp
  also have "(2::rat) powi 53 = of_int (2 ^ 53)"
    by (simp add: power_int_def)
  finally have "n \<le> 2 ^ 53"
    unfolding n_def by (intro round_half_even_le) simp
  moreover have "0 \<le> n"
    unfolding n_def using assms(1) qpos by (intro round_half_even_nonneg) simp
  moreover have "\<bar>r - x\<bar> \<le> q / 2"
  proof -
    have "\<bar>of_int n - x / q\<bar> \<le> 1 / 2"
      unfolding n_def by (rule round_half_even_near)
    then have "\<bar>of_int n - x / q\<bar> * q \<le> 1 / 2 * q"
      using qpos by (intro mult_right_mono) simp_all
    moreover have "\<bar>r - x\<bar> = \<bar>of_int n - x / q\<bar> * q"
    proof -
      have "r - x = (of_int n - x / q) * q"
        using qpos by (simp add: r left_diff_distrib)
      then have "\<bar>r - x\<bar> = \<bar>of_int n - x / q\<bar> * \<bar>q\<bar>"
        by (simp only: abs_mult)
      with qpos show ?thesis by simp
    qed
    ultimately show ?thesis by simp
  qed
  ultimately show ?thesis using r fin by blast
qed

lemma round_half_even_of_int: "round_half_even (of_int m) = m"
  by (simp add: round_half_even_def)

text \<open>
  The magnitudes that round to themselves, the finite doubles of \<open>is_double\<close>, are the
  multiples of the quantum of their binade below \<open>2 ^ 1024\<close>.
\<close>

lemma round_mag_fixed_iff:
  assumes "0 < x"
  shows "round_mag x = Some x \<longleftrightarrow>
           (\<exists>n. x = of_int n * pow2 (max (floor_log2 x) (- 1022) - 52)) \<and> x < pow2 1024"
proof
  assume "round_mag x = Some x"
  from round_mag_sound [OF assms this]
  show "(\<exists>n. x = of_int n * pow2 (max (floor_log2 x) (- 1022) - 52)) \<and> x < pow2 1024"
    by blast
next
  assume h: "(\<exists>n. x = of_int n * pow2 (max (floor_log2 x) (- 1022) - 52)) \<and> x < pow2 1024"
  define q where "q = pow2 (max (floor_log2 x) (- 1022) - 52)"
  have qpos: "0 < q" by (simp add: q_def pow2_powi)
  from h obtain n where n: "x = of_int n * q" and fin: "x < pow2 1024"
    by (auto simp: q_def)
  from n qpos have "x / q = of_int n" by simp
  then have "of_int (round_half_even (x / q)) * q = x"
    by (simp add: round_half_even_of_int n)
  with fin show "round_mag x = Some x"
    by (simp add: round_mag_def Let_def q_def)
qed

section \<open>Doubles: evaluated sums\<close>

lemma bitlen_values:
  "bitlen 1 = 1" "bitlen 2 = 2" "bitlen 9007199254740992 = 54" "bitlen 9007199254740993 = 54"
  by code_simp+

lemma floor_half_odd: "\<lfloor>9007199254740993 / 2 :: rat\<rfloor> = 4503599627370496"
  using floor_divide_of_int_eq [of 9007199254740993 2, where ?'a = rat] by simp

lemmas round_eval = round_mag_def floor_log2_def pow2_def round_half_even_def Let_def

lemma round_mag_1: "round_mag 1 = Some 1"
  by (simp add: round_eval bitlen_values)

lemma round_mag_2: "round_mag 2 = Some 2"
  by (simp add: round_eval bitlen_values)

lemma round_mag_2p53: "round_mag 9007199254740992 = Some 9007199254740992"
  by (simp add: round_eval bitlen_values)

text \<open>\<open>2 ^ 53 + 1\<close> lies halfway between two doubles and rounds to the even one.\<close>

lemma round_mag_2p53_1: "round_mag 9007199254740993 = Some 9007199254740992"
  by (simp add: round_eval bitlen_values floor_half_odd)

lemma dadd_examples:
  "dadd (Finite False 0) (Finite False 0) = Finite False 0"
  "dadd (Finite False 0) (Finite False 1) = Finite False 1"
  "dadd (Finite False 1) (Finite False 0) = Finite False 1"
  "dadd (Finite False 1) (Finite False 1) = Finite False 2"
  "dadd (Finite False 0) (Finite False 9007199254740992) = Finite False 9007199254740992"
  "dadd (Finite False 1) (Finite False 9007199254740992) = Finite False 9007199254740992"
  "dadd (Finite False 9007199254740992) (Finite True 9007199254740992) = Finite False 0"
  by (simp_all add: pack_def round_mag_1 round_mag_2 round_mag_2p53 round_mag_2p53_1)

lemma dadd_examples_signed:
  "dadd (Finite False 0) (Finite True 1) = Finite True 1"
  "dadd (Finite False 2) (Finite True 1) = Finite False 1"
  "dadd (Finite True 1) (Finite False 2) = Finite False 1"
  by (simp_all add: pack_def round_mag_1)

section \<open>Experience: tables\<close>

lemma shape3_iff:
  "shape3 t d1 d2 d3 \<longleftrightarrow>
     length t = d1 \<and> (\<forall>i < d1. length (t ! i) = d2 \<and> (\<forall>j < d2. length (t ! i ! j) = d3))"
  by (auto simp: shape3_def list_all_length)

lemma shape2_iff:
  "shape2 t d1 d2 \<longleftrightarrow> length t = d1 \<and> (\<forall>i < d1. length (t ! i) = d2)"
  by (auto simp: shape2_def list_all_length)

lemma upd3_same:
  assumes "i < length t" "j < length (t ! i)" "x < length (t ! i ! j)"
  shows "upd3 t i j x v ! i ! j ! x = v"
  using assms by (simp add: upd3_def)

lemma upd3_other:
  assumes "(i', j', x') \<noteq> (i, j, x)"
  shows "upd3 t i j x v ! i' ! j' ! x' = t ! i' ! j' ! x'"
proof (cases "i' = i")
  case False
  then show ?thesis by (simp add: upd3_def)
next
  case i: True
  show ?thesis
  proof (cases "i < length t")
    case False
    then show ?thesis by (simp add: upd3_def list_update_beyond)
  next
    case it: True
    show ?thesis
    proof (cases "j' = j")
      case False
      with i it show ?thesis by (simp add: upd3_def)
    next
      case j: True
      with i assms have "x' \<noteq> x" by simp
      with i j it show ?thesis
        by (cases "j < length (t ! i)") (simp_all add: upd3_def list_update_beyond)
    qed
  qed
qed

lemma upd3_row_other:
  assumes "(i', j') \<noteq> (i, j)"
  shows "upd3 t i j x v ! i' ! j' = t ! i' ! j'"
proof (cases "i' = i")
  case False
  then show ?thesis by (simp add: upd3_def)
next
  case True
  with assms have "j' \<noteq> j" by simp
  with True show ?thesis
    by (cases "i < length t") (simp_all add: upd3_def list_update_beyond)
qed

lemma upd3_row_same:
  assumes "i < length t" "j < length (t ! i)"
  shows "upd3 t i j x v ! i ! j = (t ! i ! j)[x := v]"
  using assms by (simp add: upd3_def)

lemma upd2_same:
  assumes "i < length t" "j < length (t ! i)"
  shows "upd2 t i j v ! i ! j = v"
  using assms by (simp add: upd2_def)

lemma upd2_other:
  assumes "(i', j') \<noteq> (i, j)"
  shows "upd2 t i j v ! i' ! j' = t ! i' ! j'"
proof (cases "i' = i")
  case False
  then show ?thesis by (simp add: upd2_def)
next
  case True
  with assms have "j' \<noteq> j" by simp
  with True show ?thesis
    by (cases "i < length t") (simp_all add: upd2_def list_update_beyond)
qed

lemma length_upd3 [simp]: "length (upd3 t i j x v) = length t"
  by (simp add: upd3_def)

lemma length_upd2 [simp]: "length (upd2 t i j v) = length t"
  by (simp add: upd2_def)

lemma shape3_upd3:
  assumes "shape3 t d1 d2 d3"
  shows "shape3 (upd3 t i j x v) d1 d2 d3"
  unfolding shape3_iff
proof (intro conjI allI impI)
  show "length (upd3 t i j x v) = d1" using assms by (simp add: shape3_iff)
next
  fix i' assume "i' < d1"
  with assms show "length (upd3 t i j x v ! i') = d2"
    by (cases "i' = i") (auto simp: shape3_iff upd3_def)
next
  fix i' j' assume "i' < d1" "j' < d2"
  with assms show "length (upd3 t i j x v ! i' ! j') = d3"
    by (cases "(i', j') = (i, j)") (auto simp: shape3_iff upd3_row_same upd3_row_other)
qed

lemma shape2_upd2:
  assumes "shape2 t d1 d2"
  shows "shape2 (upd2 t i j v) d1 d2"
  unfolding shape2_iff
proof (intro conjI allI impI)
  show "length (upd2 t i j v) = d1" using assms by (simp add: shape2_iff)
next
  fix i' assume "i' < d1"
  with assms show "length (upd2 t i j v ! i') = d2"
    by (cases "i' = i") (auto simp: shape2_iff upd2_def)
qed

lemma sum_list_update_add:
  fixes row :: "'a::comm_monoid_add list"
  assumes "x < length row"
  shows "sum_list (row[x := row ! x + c]) = sum_list row + c"
  using assms
proof (induction row arbitrary: x)
  case Nil
  then show ?case by simp
next
  case (Cons y ys)
  then show ?case by (cases x) (simp_all add: ac_simps)
qed

lemma visits_consistent_iff:
  "visits_consistent e \<longleftrightarrow>
     (\<forall>s < S e. \<forall>a < A e. visitsSum e ! s ! a = sum_list (visits e ! s ! a))"
  by (auto simp: visits_consistent_def list_all_iff)

lemma well_shaped_Experience: "well_shaped (Experience n k)"
  by (simp add: well_shaped_def Experience_def shape3_iff shape2_iff)

lemma visits_consistent_Experience: "visits_consistent (Experience n k)"
  by (simp add: visits_consistent_iff Experience_def sum_list_replicate)

lemma well_shaped_record':
  assumes "well_shaped e"
  shows "well_shaped (record' s a s1 rew e)"
  using assms by (simp add: well_shaped_def record'_def shape3_upd3 shape2_upd2)

lemma well_shaped_reset:
  assumes "well_shaped e"
  shows "well_shaped (reset e)"
  using assms by (simp add: well_shaped_def reset_def shape3_iff shape2_iff)

lemma visits_consistent_reset:
  assumes "well_shaped e"
  shows "visits_consistent (reset e)"
  using assms
  by (simp add: visits_consistent_iff well_shaped_def reset_def shape3_iff shape2_iff)

lemma visits_consistent_record':
  assumes ws: "well_shaped e" and vc: "visits_consistent e"
    and r: "s < S e" "a < A e" "s1 < S e"
  shows "visits_consistent (record' s a s1 rew e)"
  unfolding visits_consistent_iff
proof (intro allI impI)
  fix s' a' assume "s' < S (record' s a s1 rew e)" "a' < A (record' s a s1 rew e)"
  then have r': "s' < S e" "a' < A e" by (simp_all add: record'_def)
  from ws have sh: "shape3 (visits e) (S e) (A e) (S e)" "shape2 (visitsSum e) (S e) (A e)"
    by (simp_all add: well_shaped_def)
  show "visitsSum (record' s a s1 rew e) ! s' ! a' = sum_list (visits (record' s a s1 rew e) ! s' ! a')"
  proof (cases "(s', a') = (s, a)")
    case True
    with sh r vc show ?thesis
      by (simp add: record'_def upd2_same upd3_row_same shape3_iff shape2_iff
          sum_list_update_add visits_consistent_iff)
  next
    case False
    with r' vc show ?thesis
      by (simp add: record'_def upd2_other upd3_row_other visits_consistent_iff)
  qed
qed

lemma record'_dims [simp]:
  "S (record' s a s1 rew e) = S e" "A (record' s a s1 rew e) = A e"
  by (simp_all add: record'_def)

lemma reset_dims [simp]: "S (reset e) = S e" "A (reset e) = A e"
  by (simp_all add: reset_def)

lemma Experience_dims [simp]: "S (Experience n k) = n" "A (Experience n k) = k"
  by (simp_all add: Experience_def)

lemma run_visits_consistent:
  assumes "well_shaped e0" "visits_consistent e0" "run e0 ops = Some e"
  shows "well_shaped e \<and> visits_consistent e \<and> S e = S e0 \<and> A e = A e0"
  using assms
proof (induction ops arbitrary: e0)
  case Nil
  then show ?case by simp
next
  case (Cons x xs)
  from Cons.prems(3) have ir: "in_range e0 x" and rest: "run (apply_event e0 x) xs = Some e"
    by (simp_all split: if_splits)
  have step: "well_shaped (apply_event e0 x) \<and> visits_consistent (apply_event e0 x) \<and>
      S (apply_event e0 x) = S e0 \<and> A (apply_event e0 x) = A e0"
  proof (cases x)
    case (Record s a s1 rew)
    with ir Cons.prems(1,2) show ?thesis
      by (simp add: well_shaped_record' visits_consistent_record')
  next
    case Reset
    with Cons.prems(1) show ?thesis
      by (simp add: well_shaped_reset visits_consistent_reset)
  qed
  with Cons.IH [OF _ _ rest] show ?case by simp
qed

lemma rewardsSum_record':
  assumes "well_shaped e" "s < S e" "a < A e"
  shows "rewardsSum (record' s' a' s1 rew e) ! s ! a =
           (if s' = s \<and> a' = a then dadd (rewardsSum e ! s ! a) rew else rewardsSum e ! s ! a)"
proof (cases "(s, a) = (s', a')")
  case True
  with assms show ?thesis
    by (simp add: record'_def well_shaped_def shape2_iff upd2_same)
next
  case False
  then have "rewardsSum (record' s' a' s1 rew e) ! s ! a = rewardsSum e ! s ! a"
    by (simp add: record'_def upd2_other)
  with False show ?thesis by auto
qed

lemma rewardsSum_reset:
  assumes "well_shaped e" "s < S e" "a < A e"
  shows "rewardsSum (reset e) ! s ! a = Finite False 0"
  using assms by (simp add: reset_def well_shaped_def shape2_iff)

lemma run_rewardsSum:
  assumes "well_shaped e0" "run e0 ops = Some e" "s < S e0" "a < A e0"
  shows "rewardsSum e ! s ! a = recorded_rewards s a (rewardsSum e0 ! s ! a) ops"
  using assms
proof (induction ops arbitrary: e0)
  case Nil
  then show ?case by simp
next
  case (Cons x xs)
  from Cons.prems(2) have ir: "in_range e0 x" and rest: "run (apply_event e0 x) xs = Some e"
    by (simp_all split: if_splits)
  show ?case
  proof (cases x)
    case (Record s' a' s1 rew)
    have ws: "well_shaped (apply_event e0 x)"
      using Record Cons.prems(1) by (simp add: well_shaped_record')
    from Cons.IH [OF ws rest] Cons.prems(3,4) Record
    have "rewardsSum e ! s ! a =
        recorded_rewards s a (rewardsSum (record' s' a' s1 rew e0) ! s ! a) xs" by simp
    with Record Cons.prems show ?thesis
      by (simp add: rewardsSum_record')
  next
    case Reset
    have ws: "well_shaped (apply_event e0 x)"
      using Reset Cons.prems(1) by (simp add: well_shaped_reset)
    from Cons.IH [OF ws rest] Cons.prems(3,4) Reset
    have "rewardsSum e ! s ! a = recorded_rewards s a (rewardsSum (reset e0) ! s ! a) xs"
      by simp
    with Reset Cons.prems show ?thesis
      by (simp add: rewardsSum_reset)
  qed
qed


section \<open>Experience: rewards without rounding\<close>

lemma exact_add_finite:
  assumes "exact_add a b"
  obtains s m t n where "a = Finite s m" "b = Finite t n"
  using assms by (cases a; cases b) auto

lemma dval_dadd_exact:
  assumes "exact_add a b"
  shows "dval (dadd a b) = dval a + dval b"
proof -
  from assms obtain s m t n where ab: "a = Finite s m" "b = Finite t n"
    by (rule exact_add_finite)
  define x where "x = valof s m + valof t n"
  show ?thesis
  proof (cases "x = 0")
    case True
    then have "dadd a b = Finite (s \<and> t) 0"
      by (simp add: ab x_def Let_def del: valof.simps)
    moreover from True have "dval a + dval b = 0"
      by (simp add: ab x_def)
    ultimately show ?thesis by simp
  next
    case False
    with assms ab have "round_mag \<bar>x\<bar> = Some \<bar>x\<bar>"
      by (simp add: x_def Let_def del: valof.simps)
    with False have "dadd a b = Finite (x < 0) \<bar>x\<bar>"
      by (simp add: ab x_def [symmetric] pack_def Let_def del: valof.simps)
    then show ?thesis
      by (simp add: ab x_def)
  qed
qed

lemma plain_dadd_exact:
  assumes "plain a" "plain b \<or> is_double b" "exact_add a b"
  shows "plain (dadd a b)"
proof -
  from assms(3) obtain s m t n where ab: "a = Finite s m" "b = Finite t n"
    by (rule exact_add_finite)
  from assms(2) ab have n: "0 \<le> n" by (auto split: if_splits)
  from assms(1) ab have m: "0 \<le> m" "s \<longrightarrow> 0 < m" by (auto split: if_splits)
  define x where "x = valof s m + valof t n"
  show ?thesis
  proof (cases "x = 0")
    case True
    have "\<not> (s \<and> t)"
    proof
      assume "s \<and> t"
      with m n have "x < 0" by (simp add: x_def)
      with True show False by simp
    qed
    moreover from True have "dadd a b = Finite (s \<and> t) 0"
      by (simp add: ab x_def Let_def del: valof.simps)
    ultimately show ?thesis by simp
  next
    case False
    with assms(3) ab have "round_mag \<bar>x\<bar> = Some \<bar>x\<bar>"
      by (simp add: x_def Let_def del: valof.simps)
    with False have "dadd a b = Finite (x < 0) \<bar>x\<bar>"
      by (simp add: ab x_def [symmetric] pack_def Let_def del: valof.simps)
    with False show ?thesis by simp
  qed
qed

lemma plain_eqI:
  assumes "plain a" "plain b" "dval a = dval b"
  shows "a = b"
  using assms by (cases a; cases b) (auto split: if_splits)

lemma exact_sum_foldl:
  assumes "plain acc" "list_all plain row" "exact_sum acc row"
  shows "plain (foldl dadd acc row) \<and>
         dval (foldl dadd acc row) = dval acc + sum_list (map dval row)"
  using assms
proof (induction row arbitrary: acc)
  case Nil
  then show ?case by simp
next
  case (Cons c cs)
  from Cons.prems have ex: "exact_add acc c" and rest: "exact_sum (dadd acc c) cs"
    and pc: "plain c" and pcs: "list_all plain cs" by simp_all
  have p: "plain (dadd acc c)"
    using Cons.prems(1) pc ex by (intro plain_dadd_exact) simp_all
  from Cons.IH [OF p pcs rest] dval_dadd_exact [OF ex]
  show ?case by (simp add: algebra_simps)
qed

lemma rewards_exact_iff:
  "rewards_exact e \<longleftrightarrow>
     (\<forall>s < S e. \<forall>a < A e.
        plain (rewardsSum e ! s ! a) \<and> list_all plain (rewards e ! s ! a) \<and>
        dval (rewardsSum e ! s ! a) = sum_list (map dval (rewards e ! s ! a)))"
  by (auto simp: rewards_exact_def list_all_iff)

lemma rewards_exact_Experience: "rewards_exact (Experience n k)"
  by (simp add: rewards_exact_iff Experience_def list_all_iff sum_list_replicate)

lemma rewards_exact_reset:
  assumes "well_shaped e"
  shows "rewards_exact (reset e)"
  using assms
  by (simp add: rewards_exact_iff well_shaped_def reset_def shape3_iff shape2_iff
      list_all_iff comp_def)

lemma rewards_exact_record':
  assumes ws: "well_shaped e" and inv: "rewards_exact e"
    and r: "s < S e" "a < A e" "s1 < S e"
    and d: "is_double rew"
    and ex: "exact_add (rewards e ! s ! a ! s1) rew" "exact_add (rewardsSum e ! s ! a) rew"
  shows "rewards_exact (record' s a s1 rew e)"
  unfolding rewards_exact_iff
proof (intro allI impI)
  fix s' a' assume "s' < S (record' s a s1 rew e)" "a' < A (record' s a s1 rew e)"
  then have r': "s' < S e" "a' < A e" by simp_all
  from ws have sh: "shape3 (rewards e) (S e) (A e) (S e)" "shape2 (rewardsSum e) (S e) (A e)"
    by (simp_all add: well_shaped_def)
  let ?e = "record' s a s1 rew e"
  show "plain (rewardsSum ?e ! s' ! a') \<and> list_all plain (rewards ?e ! s' ! a') \<and>
      dval (rewardsSum ?e ! s' ! a') = sum_list (map dval (rewards ?e ! s' ! a'))"
  proof (cases "(s', a') = (s, a)")
    case False
    with r' inv show ?thesis
      by (simp add: record'_def upd2_other upd3_row_other rewards_exact_iff)
  next
    case True
    define row where "row = rewards e ! s ! a"
    define marg where "marg = rewardsSum e ! s ! a"
    from inv r have old: "plain marg" "list_all plain row"
      "dval marg = sum_list (map dval row)"
      by (simp_all add: rewards_exact_iff row_def marg_def)
    from sh r have len: "s1 < length row"
      by (simp add: shape3_iff row_def)
    from old(2) len have pc: "plain (row ! s1)"
      by (simp add: list_all_length)
    have m': "rewardsSum ?e ! s ! a = dadd marg rew"
      using sh r by (simp add: record'_def upd2_same shape2_iff marg_def)
    have row': "rewards ?e ! s ! a = row[s1 := dadd (row ! s1) rew]"
      using sh r by (simp add: record'_def upd3_row_same shape3_iff row_def)
    have p1: "plain (dadd marg rew)"
      using old(1) d ex(2) by (intro plain_dadd_exact) (simp_all add: marg_def)
    have p2: "plain (dadd (row ! s1) rew)"
      using pc d ex(1) by (intro plain_dadd_exact) (simp_all add: row_def)
    have p3: "list_all plain (row[s1 := dadd (row ! s1) rew])"
      unfolding list_all_length
    proof (intro allI impI)
      fix i assume "i < length (row[s1 := dadd (row ! s1) rew])"
      then have i: "i < length row" by simp
      with old(2) have "plain (row ! i)" by (simp add: list_all_length)
      with p2 i show "plain (row[s1 := dadd (row ! s1) rew] ! i)"
        by (cases "i = s1") simp_all
    qed
    have "sum_list (map dval (row[s1 := dadd (row ! s1) rew])) =
        sum_list ((map dval row)[s1 := map dval row ! s1 + dval rew])"
      using len dval_dadd_exact [OF ex(1)] by (simp add: map_update row_def)
    also have "\<dots> = sum_list (map dval row) + dval rew"
      using len by (intro sum_list_update_add) simp
    finally have "sum_list (map dval (row[s1 := dadd (row ! s1) rew])) = dval (dadd marg rew)"
      using dval_dadd_exact [OF ex(2)] old(3) by (simp add: marg_def)
    with True p1 p3 m' row' show ?thesis by simp
  qed
qed

lemma run_rewards_exact:
  assumes "well_shaped e0" "rewards_exact e0" "run e0 ops = Some e" "exact_run e0 ops"
  shows "rewards_exact e"
  using assms
proof (induction ops arbitrary: e0)
  case Nil
  then show ?case by simp
next
  case (Cons x xs)
  from Cons.prems(3) have ir: "in_range e0 x" and rest: "run (apply_event e0 x) xs = Some e"
    by (simp_all split: if_splits)
  show ?case
  proof (cases x)
    case (Record s a s1 rew)
    with Cons.prems(4) have d: "is_double rew"
      and ex: "exact_add (rewards e0 ! s ! a ! s1) rew" "exact_add (rewardsSum e0 ! s ! a) rew"
      and er: "exact_run (record' s a s1 rew e0) xs" by simp_all
    from ir Record have r: "s < S e0" "a < A e0" "s1 < S e0" by simp_all
    have "rewards_exact (record' s a s1 rew e0)"
      using Cons.prems(1,2) r d ex by (rule rewards_exact_record')
    moreover have "well_shaped (record' s a s1 rew e0)"
      using Cons.prems(1) by (rule well_shaped_record')
    ultimately show ?thesis
      using Cons.IH [of "record' s a s1 rew e0"] rest er Record by simp
  next
    case Reset
    with Cons.prems(4) have er: "exact_run (reset e0) xs" by simp
    have "rewards_exact (reset e0)" "well_shaped (reset e0)"
      using Cons.prems(1) by (simp_all add: rewards_exact_reset well_shaped_reset)
    then show ?thesis
      using Cons.IH [of "reset e0"] rest er Reset by simp
  qed
qed

lemma rewards_exact_dsum:
  assumes "rewards_exact e" "s < S e" "a < A e"
    and "exact_sum (Finite False 0) (rewards e ! s ! a)"
  shows "rewardsSum e ! s ! a = dsum (rewards e ! s ! a)"
proof -
  from assms(1-3) have inv: "plain (rewardsSum e ! s ! a)" "list_all plain (rewards e ! s ! a)"
    "dval (rewardsSum e ! s ! a) = sum_list (map dval (rewards e ! s ! a))"
    by (simp_all add: rewards_exact_iff)
  have "plain (Finite False 0)" by simp
  from exact_sum_foldl [OF this inv(2) assms(4)]
  have "plain (dsum (rewards e ! s ! a))"
    "dval (dsum (rewards e ! s ! a)) = sum_list (map dval (rewards e ! s ! a))"
    by (simp_all add: dsum_def)
  with inv(1,3) show ?thesis
    by (intro plain_eqI) simp_all
qed

section \<open>Experience: the bulk setters\<close>

lemma fold_update_at:
  "fold (\<lambda>k t. t[i := F k (t ! i)]) ks t = t[i := fold F ks (t ! i)]"
proof (cases "i < length t")
  case False
  then have "fold (\<lambda>k t. t[i := F k (t ! i)]) ks t = t"
    by (induction ks) (simp_all add: list_update_beyond)
  with False show ?thesis by (simp add: list_update_beyond)
next
  case True
  then show ?thesis
  proof (induction ks arbitrary: t)
    case Nil
    then show ?case by simp
  next
    case (Cons k ks)
    then show ?case by simp
  qed
qed

lemma fold_update_each:
  "length (fold (\<lambda>k p. p[k := g k (p ! k)]) [0..<n] p) = length p \<and>
   (\<forall>k < length p. fold (\<lambda>k p. p[k := g k (p ! k)]) [0..<n] p ! k =
      (if k < n then g k (p ! k) else p ! k))"
proof (induction n)
  case 0
  show ?case by simp
next
  case (Suc n)
  let ?q = "fold (\<lambda>k p. p[k := g k (p ! k)]) [0..<n] p"
  from Suc have len: "length ?q = length p"
    and nth: "\<And>k. k < length p \<Longrightarrow> ?q ! k = (if k < n then g k (p ! k) else p ! k)"
    by simp_all
  have step: "fold (\<lambda>k p. p[k := g k (p ! k)]) [0..<Suc n] p = ?q[n := g n (?q ! n)]"
    by simp
  show ?case
  proof (intro conjI allI impI)
    show "length (fold (\<lambda>k p. p[k := g k (p ! k)]) [0..<Suc n] p) = length p"
      by (simp add: len)
  next
    fix k assume k: "k < length p"
    show "fold (\<lambda>k p. p[k := g k (p ! k)]) [0..<Suc n] p ! k =
        (if k < Suc n then g k (p ! k) else p ! k)"
    proof (cases "k = n")
      case True
      with k len nth [of n] show ?thesis
        by (simp only: step) simp
    next
      case False
      with k nth [of k] show ?thesis
        by (simp only: step) (simp add: less_Suc_eq)
    qed
  qed
qed

lemma fold_add_sum_list:
  fixes c :: "'a::comm_monoid_add"
  shows "fold (\<lambda>k c. c + f k) ks c = c + sum_list (map f ks)"
  by (induction ks arbitrary: c) (simp_all add: ac_simps)

lemma fold_dadd_foldl: "fold (\<lambda>k c. dadd c (f k)) ks c = foldl dadd c (map f ks)"
  by (induction ks arbitrary: c) simp_all

text \<open>The innermost loop of \<open>copyTable3D\<close> rewrites one row.\<close>

lemma copy_row:
  "fold (\<lambda>x out. upd3 out i j x (inp i j x)) ks out =
     out[i := (out ! i)[j := fold (\<lambda>x r. r[x := inp i j x]) ks (out ! i ! j)]]"
proof -
  have "fold (\<lambda>x out. upd3 out i j x (inp i j x)) ks out =
      fold (\<lambda>x t. t[i := (\<lambda>x p. p[j := (p ! j)[x := inp i j x]]) x (t ! i)]) ks out"
    by (simp add: upd3_def)
  also have "\<dots> = out[i := fold (\<lambda>x p. p[j := (p ! j)[x := inp i j x]]) ks (out ! i)]"
    by (rule fold_update_at)
  also have "fold (\<lambda>x p. p[j := (p ! j)[x := inp i j x]]) ks (out ! i) =
      (out ! i)[j := fold (\<lambda>x r. r[x := inp i j x]) ks (out ! i ! j)]"
    by (rule fold_update_at [where F = "\<lambda>x r. r[x := inp i j x]"])
  finally show ?thesis .
qed

lemma copy_plane:
  "fold (\<lambda>j. fold (\<lambda>x out. upd3 out i j x (inp i j x)) xs) js out =
     out[i := fold (\<lambda>j p. p[j := fold (\<lambda>x r. r[x := inp i j x]) xs (p ! j)]) js (out ! i)]"
proof -
  have "(\<lambda>j. fold (\<lambda>x out. upd3 out i j x (inp i j x)) xs) =
      (\<lambda>j t. t[i := (\<lambda>j p. p[j := fold (\<lambda>x r. r[x := inp i j x]) xs (p ! j)]) j (t ! i)])"
    by (intro ext) (simp add: copy_row)
  then have "fold (\<lambda>j. fold (\<lambda>x out. upd3 out i j x (inp i j x)) xs) js out =
      fold (\<lambda>j t. t[i := (\<lambda>j p. p[j := fold (\<lambda>x r. r[x := inp i j x]) xs (p ! j)]) j (t ! i)])
        js out"
    by (simp only:)
  also have "\<dots> =
      out[i := fold (\<lambda>j p. p[j := fold (\<lambda>x r. r[x := inp i j x]) xs (p ! j)]) js (out ! i)]"
    by (rule fold_update_at)
  finally show ?thesis .
qed

lemma copy_table:
  "copyTable3D inp out d1 d2 d3 =
     fold (\<lambda>i t. t[i := fold (\<lambda>j p. p[j := fold (\<lambda>x r. r[x := inp i j x]) [0..<d3] (p ! j)])
       [0..<d2] (t ! i)]) [0..<d1] out"
proof -
  have "(\<lambda>i. fold (\<lambda>j. fold (\<lambda>x out. upd3 out i j x (inp i j x)) [0..<d3]) [0..<d2]) =
      (\<lambda>i t. t[i := fold (\<lambda>j p. p[j := fold (\<lambda>x r. r[x := inp i j x]) [0..<d3] (p ! j)])
        [0..<d2] (t ! i)])"
    by (intro ext) (rule copy_plane)
  then show ?thesis
    by (simp only: copyTable3D_def)
qed

lemma copyTable3D_nth:
  assumes "shape3 out d1 d2 d3" "i < d1" "j < d2" "x < d3"
  shows "copyTable3D inp out d1 d2 d3 ! i ! j ! x = inp i j x"
proof -
  define row where "row i j = fold (\<lambda>x r. r[x := inp i j x]) [0..<d3]" for i j
  define plane where "plane i = fold (\<lambda>j p. p[j := row i j (p ! j)]) [0..<d2]" for i
  have c: "copyTable3D inp out d1 d2 d3 = fold (\<lambda>i t. t[i := plane i (t ! i)]) [0..<d1] out"
    unfolding plane_def row_def by (rule copy_table)
  from assms have len: "i < length out" "j < length (out ! i)" "x < length (out ! i ! j)"
    by (simp_all add: shape3_iff)
  have "copyTable3D inp out d1 d2 d3 ! i = plane i (out ! i)"
    using fold_update_each [of plane d1 out] len(1) assms(2) by (simp add: c)
  moreover have "plane i (out ! i) ! j = row i j (out ! i ! j)"
    using fold_update_each [of "row i" d2 "out ! i"] len(2) assms(3) by (simp add: plane_def)
  moreover have "row i j (out ! i ! j) ! x = inp i j x"
    using fold_update_each [of "\<lambda>x c. inp i j x" d3 "out ! i ! j"] len(3) assms(4)
    by (simp add: row_def)
  ultimately show ?thesis by simp
qed

lemma copyTable3D_shape:
  assumes "shape3 out d1 d2 d3"
  shows "shape3 (copyTable3D inp out d1 d2 d3) d1 d2 d3"
proof -
  define row where "row i j = fold (\<lambda>x r. r[x := inp i j x]) [0..<d3]" for i j
  define plane where "plane i = fold (\<lambda>j p. p[j := row i j (p ! j)]) [0..<d2]" for i
  have c: "copyTable3D inp out d1 d2 d3 = fold (\<lambda>i t. t[i := plane i (t ! i)]) [0..<d1] out"
    unfolding plane_def row_def by (rule copy_table)
  have l1: "length (copyTable3D inp out d1 d2 d3) = d1"
    using fold_update_each [of plane d1 out] assms by (simp add: c shape3_iff)
  have l2: "length (copyTable3D inp out d1 d2 d3 ! i) = d2 \<and>
      (\<forall>j < d2. length (copyTable3D inp out d1 d2 d3 ! i ! j) = d3)" if "i < d1" for i
  proof -
    from that assms have len: "i < length out" "length (out ! i) = d2"
      "\<forall>j < d2. length (out ! i ! j) = d3" by (simp_all add: shape3_iff)
    have p: "copyTable3D inp out d1 d2 d3 ! i = plane i (out ! i)"
      using fold_update_each [of plane d1 out] len(1) that by (simp add: c)
    have "length (plane i (out ! i)) = d2"
      using fold_update_each [of "row i" d2 "out ! i"] len(2) by (simp add: plane_def)
    moreover have "length (plane i (out ! i) ! j) = d3" if "j < d2" for j
    proof -
      have "plane i (out ! i) ! j = row i j (out ! i ! j)"
        using fold_update_each [of "row i" d2 "out ! i"] len(2) that by (simp add: plane_def)
      moreover have "length (row i j (out ! i ! j)) = d3"
        using fold_update_each [of "\<lambda>x c. inp i j x" d3 "out ! i ! j"] len(3) that
        by (simp add: row_def)
      ultimately show ?thesis by simp
    qed
    ultimately show ?thesis by (simp add: p)
  qed
  from l1 l2 show ?thesis by (simp add: shape3_iff)
qed

text \<open>The innermost loop of a setter accumulates into one cell of the marginal.\<close>

lemma marginal_cell:
  "fold (\<lambda>k vs. upd2 vs s a (h k (vs ! s ! a))) ks vs =
     vs[s := (vs ! s)[a := fold h ks (vs ! s ! a)]]"
proof -
  have "fold (\<lambda>k vs. upd2 vs s a (h k (vs ! s ! a))) ks vs =
      fold (\<lambda>k t. t[s := (\<lambda>k p. p[a := h k (p ! a)]) k (t ! s)]) ks vs"
    by (simp add: upd2_def)
  also have "\<dots> = vs[s := fold (\<lambda>k p. p[a := h k (p ! a)]) ks (vs ! s)]"
    by (rule fold_update_at)
  also have "fold (\<lambda>k p. p[a := h k (p ! a)]) ks (vs ! s) =
      (vs ! s)[a := fold h ks (vs ! s ! a)]"
    by (rule fold_update_at)
  finally show ?thesis .
qed

lemma marginal_row:
  "fold (\<lambda>a. fold (\<lambda>k vs. upd2 vs s a (h s a k (vs ! s ! a))) ks) js vs =
     vs[s := fold (\<lambda>a p. p[a := fold (h s a) ks (p ! a)]) js (vs ! s)]"
proof -
  have "(\<lambda>a. fold (\<lambda>k vs. upd2 vs s a (h s a k (vs ! s ! a))) ks) =
      (\<lambda>a t. t[s := (\<lambda>a p. p[a := fold (h s a) ks (p ! a)]) a (t ! s)])"
    by (intro ext) (simp add: marginal_cell)
  then have "fold (\<lambda>a. fold (\<lambda>k vs. upd2 vs s a (h s a k (vs ! s ! a))) ks) js vs =
      fold (\<lambda>a t. t[s := (\<lambda>a p. p[a := fold (h s a) ks (p ! a)]) a (t ! s)]) js vs"
    by (simp only:)
  also have "\<dots> = vs[s := fold (\<lambda>a p. p[a := fold (h s a) ks (p ! a)]) js (vs ! s)]"
    by (rule fold_update_at)
  finally show ?thesis .
qed

lemma marginal_table:
  "fold (\<lambda>s. fold (\<lambda>a. fold (\<lambda>k vs. upd2 vs s a (h s a k (vs ! s ! a))) ks) [0..<d2])
     [0..<d1] vs =
   fold (\<lambda>s t. t[s := fold (\<lambda>a p. p[a := fold (h s a) ks (p ! a)]) [0..<d2] (t ! s)])
     [0..<d1] vs"
proof -
  have "(\<lambda>s. fold (\<lambda>a. fold (\<lambda>k vs. upd2 vs s a (h s a k (vs ! s ! a))) ks) [0..<d2]) =
      (\<lambda>s t. t[s := fold (\<lambda>a p. p[a := fold (h s a) ks (p ! a)]) [0..<d2] (t ! s)])"
    by (intro ext) (rule marginal_row)
  then show ?thesis by (simp only:)
qed

lemma marginal_nth:
  assumes "shape2 vs d1 d2" "s < d1" "a < d2"
  shows "fold (\<lambda>s. fold (\<lambda>a. fold (\<lambda>k vs. upd2 vs s a (h s a k (vs ! s ! a))) ks) [0..<d2])
           [0..<d1] vs ! s ! a = fold (h s a) ks (vs ! s ! a)"
proof -
  define row where "row s = fold (\<lambda>a p. p[a := fold (h s a) ks (p ! a)]) [0..<d2]" for s
  from assms have len: "s < length vs" "a < length (vs ! s)"
    by (simp_all add: shape2_iff)
  have "fold (\<lambda>s t. t[s := row s (t ! s)]) [0..<d1] vs ! s = row s (vs ! s)"
    using fold_update_each [of row d1 vs] len(1) assms(2) by simp
  moreover have "row s (vs ! s) ! a = fold (h s a) ks (vs ! s ! a)"
    using fold_update_each [of "\<lambda>a. fold (h s a) ks" d2 "vs ! s"] len(2) assms(3)
    by (simp add: row_def)
  ultimately show ?thesis
    by (simp add: marginal_table row_def)
qed

lemma marginal_shape:
  assumes "shape2 vs d1 d2"
  shows "shape2 (fold (\<lambda>s. fold (\<lambda>a. fold (\<lambda>k vs. upd2 vs s a (h s a k (vs ! s ! a))) ks)
           [0..<d2]) [0..<d1] vs) d1 d2"
proof -
  define row where "row s = fold (\<lambda>a p. p[a := fold (h s a) ks (p ! a)]) [0..<d2]" for s
  have l1: "length (fold (\<lambda>s t. t[s := row s (t ! s)]) [0..<d1] vs) = d1"
    using fold_update_each [of row d1 vs] assms by (simp add: shape2_iff)
  have l2: "length (fold (\<lambda>s t. t[s := row s (t ! s)]) [0..<d1] vs ! s) = d2" if "s < d1" for s
  proof -
    from that assms have len: "s < length vs" "length (vs ! s) = d2"
      by (simp_all add: shape2_iff)
    have "fold (\<lambda>s t. t[s := row s (t ! s)]) [0..<d1] vs ! s = row s (vs ! s)"
      using fold_update_each [of row d1 vs] len(1) that by simp
    moreover have "length (row s (vs ! s)) = d2"
      using fold_update_each [of "\<lambda>a. fold (h s a) ks" d2 "vs ! s"] len(2)
      by (simp add: row_def)
    ultimately show ?thesis by simp
  qed
  from l1 l2 show ?thesis
    by (simp add: marginal_table row_def shape2_iff)
qed

lemma setVisits_cell:
  assumes "well_shaped e" "s < S e" "a < A e" "s1 < S e"
  shows "visits (setVisits v e) ! s ! a ! s1 = v s a s1"
  using assms by (simp add: setVisits_def Let_def well_shaped_def copyTable3D_nth)

lemma setVisits_row:
  assumes "well_shaped e" "s < S e" "a < A e"
  shows "visits (setVisits v e) ! s ! a = map (v s a) [0..<S e]"
proof (rule nth_equalityI)
  from assms have "shape3 (visits (setVisits v e)) (S e) (A e) (S e)"
    by (simp add: setVisits_def Let_def well_shaped_def copyTable3D_shape)
  with assms show "length (visits (setVisits v e) ! s ! a) = length (map (v s a) [0..<S e])"
    by (simp add: shape3_iff)
  fix k assume "k < length (visits (setVisits v e) ! s ! a)"
  with \<open>length (visits (setVisits v e) ! s ! a) = length (map (v s a) [0..<S e])\<close>
  have "k < S e" by simp
  with assms show "visits (setVisits v e) ! s ! a ! k = map (v s a) [0..<S e] ! k"
    by (simp add: setVisits_cell)
qed

text \<open>
  What \<open>setVisits\<close> leaves in the marginal: the previous value plus the sum of the
  copied row.
\<close>

lemma setVisits_visitsSum:
  assumes "well_shaped e" "s < S e" "a < A e"
  shows "visitsSum (setVisits v e) ! s ! a =
           visitsSum e ! s ! a + sum_list (visits (setVisits v e) ! s ! a)"
proof -
  define t where "t = copyTable3D v (visits e) (S e) (A e) (S e)"
  from assms have sh: "shape2 (visitsSum e) (S e) (A e)" "shape3 (visits e) (S e) (A e) (S e)"
    by (simp_all add: well_shaped_def)
  have "visitsSum (setVisits v e) ! s ! a =
      fold (\<lambda>s. fold (\<lambda>a. fold (\<lambda>s1 vs.
        upd2 vs s a ((\<lambda>s a s1 c. c + t ! s ! a ! s1) s a s1 (vs ! s ! a))) [0..<S e]) [0..<A e])
        [0..<S e] (visitsSum e) ! s ! a"
    by (simp add: setVisits_def Let_def t_def)
  also have "\<dots> = fold (\<lambda>s1 c. c + t ! s ! a ! s1) [0..<S e] (visitsSum e ! s ! a)"
    using sh(1) assms(2,3) by (rule marginal_nth)
  also have "\<dots> = visitsSum e ! s ! a + sum_list (map (\<lambda>s1. t ! s ! a ! s1) [0..<S e])"
    by (rule fold_add_sum_list)
  also have "map (\<lambda>s1. t ! s ! a ! s1) [0..<S e] = map (v s a) [0..<S e]"
    using sh(2) assms(2,3) by (simp add: t_def copyTable3D_nth)
  finally show ?thesis
    using assms by (simp add: setVisits_row)
qed

lemma setVisits_well_shaped:
  assumes "well_shaped e"
  shows "well_shaped (setVisits v e)"
proof -
  define t where "t = copyTable3D v (visits e) (S e) (A e) (S e)"
  from assms have sh: "shape2 (visitsSum e) (S e) (A e)" "shape3 (visits e) (S e) (A e) (S e)"
    by (simp_all add: well_shaped_def)
  have "shape2 (fold (\<lambda>s. fold (\<lambda>a. fold (\<lambda>s1 vs.
        upd2 vs s a ((\<lambda>s a s1 c. c + t ! s ! a ! s1) s a s1 (vs ! s ! a))) [0..<S e]) [0..<A e])
        [0..<S e] (visitsSum e)) (S e) (A e)"
    using sh(1) by (rule marginal_shape)
  with assms sh(2) show ?thesis
    by (simp add: setVisits_def Let_def t_def well_shaped_def copyTable3D_shape)
qed

lemma setRewards_cell:
  assumes "well_shaped e" "s < S e" "a < A e" "s1 < S e"
  shows "rewards (setRewards r e) ! s ! a ! s1 = r s a s1"
  using assms by (simp add: setRewards_def Let_def well_shaped_def copyTable3D_nth)

lemma setRewards_row:
  assumes "well_shaped e" "s < S e" "a < A e"
  shows "rewards (setRewards r e) ! s ! a = map (r s a) [0..<S e]"
proof (rule nth_equalityI)
  from assms have "shape3 (rewards (setRewards r e)) (S e) (A e) (S e)"
    by (simp add: setRewards_def Let_def well_shaped_def copyTable3D_shape)
  with assms show "length (rewards (setRewards r e) ! s ! a) = length (map (r s a) [0..<S e])"
    by (simp add: shape3_iff)
  fix k assume "k < length (rewards (setRewards r e) ! s ! a)"
  with \<open>length (rewards (setRewards r e) ! s ! a) = length (map (r s a) [0..<S e])\<close>
  have "k < S e" by simp
  with assms show "rewards (setRewards r e) ! s ! a ! k = map (r s a) [0..<S e] ! k"
    by (simp add: setRewards_cell)
qed

lemma setRewards_rewardsSum:
  assumes "well_shaped e" "s < S e" "a < A e"
  shows "rewardsSum (setRewards r e) ! s ! a =
           foldl dadd (rewardsSum e ! s ! a) (rewards (setRewards r e) ! s ! a)"
proof -
  define t where "t = copyTable3D r (rewards e) (S e) (A e) (S e)"
  from assms have sh: "shape2 (rewardsSum e) (S e) (A e)" "shape3 (rewards e) (S e) (A e) (S e)"
    by (simp_all add: well_shaped_def)
  have "rewardsSum (setRewards r e) ! s ! a =
      fold (\<lambda>s. fold (\<lambda>a. fold (\<lambda>s1 rs.
        upd2 rs s a ((\<lambda>s a s1 c. dadd c (t ! s ! a ! s1)) s a s1 (rs ! s ! a))) [0..<S e])
        [0..<A e]) [0..<S e] (rewardsSum e) ! s ! a"
    by (simp add: setRewards_def Let_def t_def)
  also have "\<dots> = fold (\<lambda>s1 c. dadd c (t ! s ! a ! s1)) [0..<S e] (rewardsSum e ! s ! a)"
    using sh(1) assms(2,3) by (rule marginal_nth)
  also have "\<dots> = foldl dadd (rewardsSum e ! s ! a) (map (\<lambda>s1. t ! s ! a ! s1) [0..<S e])"
    by (rule fold_dadd_foldl)
  also have "map (\<lambda>s1. t ! s ! a ! s1) [0..<S e] = map (r s a) [0..<S e]"
    using sh(2) assms(2,3) by (simp add: t_def copyTable3D_nth)
  finally show ?thesis
    using assms by (simp add: setRewards_row)
qed

text \<open>On a marginal that is zero before the call, the setters do give the sums.\<close>

lemma setVisits_from_zero:
  assumes "well_shaped e" "s < S e" "a < A e" "visitsSum e ! s ! a = 0"
  shows "visitsSum (setVisits v e) ! s ! a = sum_list (visits (setVisits v e) ! s ! a)"
  using assms by (simp add: setVisits_visitsSum)

lemma setRewards_from_zero:
  assumes "well_shaped e" "s < S e" "a < A e" "rewardsSum e ! s ! a = Finite False 0"
  shows "rewardsSum (setRewards r e) ! s ! a = dsum (rewards (setRewards r e) ! s ! a)"
  using assms by (simp add: setRewards_rewardsSum dsum_def)

lemmas table_eval = Experience_def record'_def reset_def setVisits_def setRewards_def
  copyTable3D_def upd3_def upd2_def table_of_def getVisits_def getVisitsSum_def getReward_def
  getRewardSum_def dsum_def Let_def upt_conv_Cons numeral_2_eq_2

section \<open>Experience: the claims\<close>

text \<open>
  C4. For a table of the constructor's shape and indices \<open>s < S\<close>, \<open>a < A\<close>,
  \<open>s1 < S\<close>, \<open>record(s, a, s1, reward)\<close> adds 1 to \<open>visits[s][a][s1]\<close> and to
  \<open>visitsSum[s][a]\<close> (in \<open>unsigned long\<close>, so modulo \<open>2 ^ 64\<close>), adds the reward to
  \<open>rewards[s][a][s1]\<close> and to \<open>rewardsSum[s][a]\<close> (in double arithmetic), and leaves
  every other cell of the four tables, the dimensions and the shape as they were. The
  function returns nothing: its result here is the table after the call.
\<close>

theorem record_effect:
  assumes "well_shaped e" "s < S e" "a < A e" "s1 < S e"
  shows "getVisits (record' s a s1 rew e) s a s1 = getVisits e s a s1 + 1 \<and>
         getVisitsSum (record' s a s1 rew e) s a = getVisitsSum e s a + 1 \<and>
         getReward (record' s a s1 rew e) s a s1 = dadd (getReward e s a s1) rew \<and>
         getRewardSum (record' s a s1 rew e) s a = dadd (getRewardSum e s a) rew \<and>
         (\<forall>s' a' x'. (s', a', x') \<noteq> (s, a, s1) \<longrightarrow>
            getVisits (record' s a s1 rew e) s' a' x' = getVisits e s' a' x' \<and>
            getReward (record' s a s1 rew e) s' a' x' = getReward e s' a' x') \<and>
         (\<forall>s' a'. (s', a') \<noteq> (s, a) \<longrightarrow>
            getVisitsSum (record' s a s1 rew e) s' a' = getVisitsSum e s' a' \<and>
            getRewardSum (record' s a s1 rew e) s' a' = getRewardSum e s' a') \<and>
         S (record' s a s1 rew e) = S e \<and> A (record' s a s1 rew e) = A e \<and>
         well_shaped (record' s a s1 rew e)"
proof -
  from assms have len3: "s < length (visits e)" "a < length (visits e ! s)"
      "s1 < length (visits e ! s ! a)"
    and len3r: "s < length (rewards e)" "a < length (rewards e ! s)"
      "s1 < length (rewards e ! s ! a)"
    and len2: "s < length (visitsSum e)" "a < length (visitsSum e ! s)"
    and len2r: "s < length (rewardsSum e)" "a < length (rewardsSum e ! s)"
    by (simp_all add: well_shaped_def shape3_iff shape2_iff)
  have "getVisits (record' s a s1 rew e) s a s1 = getVisits e s a s1 + 1"
    using len3 by (simp add: getVisits_def record'_def upd3_same)
  moreover have "getVisitsSum (record' s a s1 rew e) s a = getVisitsSum e s a + 1"
    using len2 by (simp add: getVisitsSum_def record'_def upd2_same)
  moreover have "getReward (record' s a s1 rew e) s a s1 = dadd (getReward e s a s1) rew"
    using len3r by (simp add: getReward_def record'_def upd3_same)
  moreover have "getRewardSum (record' s a s1 rew e) s a = dadd (getRewardSum e s a) rew"
    using len2r by (simp add: getRewardSum_def record'_def upd2_same)
  moreover have "\<forall>s' a' x'. (s', a', x') \<noteq> (s, a, s1) \<longrightarrow>
            getVisits (record' s a s1 rew e) s' a' x' = getVisits e s' a' x' \<and>
            getReward (record' s a s1 rew e) s' a' x' = getReward e s' a' x'"
    by (simp add: getVisits_def getReward_def record'_def upd3_other)
  moreover have "\<forall>s' a'. (s', a') \<noteq> (s, a) \<longrightarrow>
            getVisitsSum (record' s a s1 rew e) s' a' = getVisitsSum e s' a' \<and>
            getRewardSum (record' s a s1 rew e) s' a' = getRewardSum e s' a'"
    by (simp add: getVisitsSum_def getRewardSum_def record'_def upd2_other)
  moreover have "well_shaped (record' s a s1 rew e)"
    using assms(1) by (rule well_shaped_record')
  ultimately show ?thesis by simp
qed

theorem record_effect_witness:
  "well_shaped (Experience 2 1) \<and> (0 :: nat) < S (Experience 2 1) \<and>
   (0 :: nat) < A (Experience 2 1) \<and> (1 :: nat) < S (Experience 2 1) \<and>
   getVisits (record' 0 0 1 (Finite False 1) (Experience 2 1)) 0 0 1 = 1 \<and>
   getVisitsSum (record' 0 0 1 (Finite False 1) (Experience 2 1)) 0 0 = 1 \<and>
   getReward (record' 0 0 1 (Finite False 1) (Experience 2 1)) 0 0 1 = Finite False 1 \<and>
   getRewardSum (record' 0 0 1 (Finite False 1) (Experience 2 1)) 0 0 = Finite False 1 \<and>
   getVisits (record' 0 0 1 (Finite False 1) (Experience 2 1)) 0 0 0 = 0 \<and>
   getVisitsSum (record' 0 0 1 (Finite False 1) (Experience 2 1)) 1 0 = 0"
proof -
  have ws: "well_shaped (Experience 2 1)" by (rule well_shaped_Experience)
  have r: "(0 :: nat) < S (Experience 2 1)" "(0 :: nat) < A (Experience 2 1)"
    "(1 :: nat) < S (Experience 2 1)" by simp_all
  note w = record_effect [OF ws r, of "Finite False 1"]
  have old: "getVisits (Experience 2 1) 0 0 1 = 0" "getVisitsSum (Experience 2 1) 0 0 = 0"
    "getReward (Experience 2 1) 0 0 1 = Finite False 0"
    "getRewardSum (Experience 2 1) 0 0 = Finite False 0"
    "getVisits (Experience 2 1) 0 0 0 = 0" "getVisitsSum (Experience 2 1) 1 0 = 0"
    by (simp_all add: table_eval)
  from w old have "getVisits (record' 0 0 1 (Finite False 1) (Experience 2 1)) 0 0 1 = 1"
    "getVisitsSum (record' 0 0 1 (Finite False 1) (Experience 2 1)) 0 0 = 1"
    "getReward (record' 0 0 1 (Finite False 1) (Experience 2 1)) 0 0 1 = Finite False 1"
    "getRewardSum (record' 0 0 1 (Finite False 1) (Experience 2 1)) 0 0 = Finite False 1"
    by (simp_all add: dadd_examples del: dadd.simps)
  moreover from w have
    "getVisits (record' 0 0 1 (Finite False 1) (Experience 2 1)) 0 0 0 =
       getVisits (Experience 2 1) 0 0 0"
    "getVisitsSum (record' 0 0 1 (Finite False 1) (Experience 2 1)) 1 0 =
       getVisitsSum (Experience 2 1) 1 0"
    by simp_all
  ultimately show ?thesis using ws r old by simp
qed

text \<open>
  C8. \<open>setVisits\<close> leaves \<open>rewards\<close>, \<open>rewardsSum\<close>, \<open>S\<close> and \<open>A\<close> as they were,
  and \<open>setRewards\<close> leaves \<open>visits\<close>, \<open>visitsSum\<close>, \<open>S\<close> and \<open>A\<close> as they were.
\<close>

theorem setters_frame:
  "rewards (setVisits v e) = rewards e \<and> rewardsSum (setVisits v e) = rewardsSum e \<and>
   S (setVisits v e) = S e \<and> A (setVisits v e) = A e \<and>
   visits (setRewards r e) = visits e \<and> visitsSum (setRewards r e) = visitsSum e \<and>
   S (setRewards r e) = S e \<and> A (setRewards r e) = A e"
  by (simp add: setVisits_def setRewards_def Let_def)

text \<open>
  C1. \<open>setVisits\<close> and \<open>setRewards\<close> add the copied cells onto the marginal that is
  already there. On the table of \<open>Experience(2, 1)\<close> after \<open>record(0, 0, 1, 1.0)\<close>,
  importing a container of zeros leaves \<open>visitsSum[0][0] = 1\<close> over a row of visits that
  sums to 0, and \<open>rewardsSum[0][0] = 1.0\<close> over a row of rewards that sums to 0.
\<close>

theorem setVisits_keeps_old_marginal:
  "getVisitsSum (setVisits (table_of [[[0, 0]], [[0, 0]]])
     (record' 0 0 1 (Finite False 1) (Experience 2 1))) 0 0 = 1 \<and>
   sum_list (visits (setVisits (table_of [[[0, 0]], [[0, 0]]])
     (record' 0 0 1 (Finite False 1) (Experience 2 1))) ! 0 ! 0) = 0 \<and>
   getRewardSum (setRewards
     (table_of [[[Finite False 0, Finite False 0]], [[Finite False 0, Finite False 0]]])
     (record' 0 0 1 (Finite False 1) (Experience 2 1))) 0 0 = Finite False 1 \<and>
   dsum (rewards (setRewards
     (table_of [[[Finite False 0, Finite False 0]], [[Finite False 0, Finite False 0]]])
     (record' 0 0 1 (Finite False 1) (Experience 2 1))) ! 0 ! 0) = Finite False 0"
  by (simp add: table_eval dadd_examples del: dadd.simps)

text \<open>
  C3. Importing the table's own contents is not idempotent: on the table of
  \<open>Experience(1, 1)\<close> after \<open>record(0, 0, 0, 1.0)\<close>, \<open>setVisits\<close> of the current
  visits keeps the visits and turns \<open>visitsSum\<close> from 1 into 2, and \<open>setRewards\<close> of
  the current rewards keeps the rewards and turns \<open>rewardsSum\<close> from 1.0 into 2.0.
\<close>

theorem setVisits_own_contents_doubles_marginal:
  "visits (record' 0 0 0 (Finite False 1) (Experience 1 1)) = [[[1]]] \<and>
   visitsSum (record' 0 0 0 (Finite False 1) (Experience 1 1)) = [[1]] \<and>
   visits (setVisits (table_of (visits (record' 0 0 0 (Finite False 1) (Experience 1 1))))
     (record' 0 0 0 (Finite False 1) (Experience 1 1))) = [[[1]]] \<and>
   visitsSum (setVisits (table_of (visits (record' 0 0 0 (Finite False 1) (Experience 1 1))))
     (record' 0 0 0 (Finite False 1) (Experience 1 1))) = [[2]] \<and>
   rewards (record' 0 0 0 (Finite False 1) (Experience 1 1)) = [[[Finite False 1]]] \<and>
   rewardsSum (record' 0 0 0 (Finite False 1) (Experience 1 1)) = [[Finite False 1]] \<and>
   rewards (setRewards (table_of (rewards (record' 0 0 0 (Finite False 1) (Experience 1 1))))
     (record' 0 0 0 (Finite False 1) (Experience 1 1))) = [[[Finite False 1]]] \<and>
   rewardsSum (setRewards (table_of (rewards (record' 0 0 0 (Finite False 1) (Experience 1 1))))
     (record' 0 0 0 (Finite False 1) (Experience 1 1))) = [[Finite False 2]]"
  by (simp add: table_eval dadd_examples del: dadd.simps)

text \<open>
  C2, as stated, fails twice. The sum of the rewards is rounded: after
  \<open>record(0, 0, 0, 1.0)\<close>, \<open>record(0, 0, 1, 2 ^ 53)\<close> and \<open>record(0, 0, 1, - 2 ^ 53)\<close>
  on \<open>Experience(2, 1)\<close> the cells of the pair \<open>(0, 0)\<close> are 1.0 and 0.0 and
  \<open>rewardsSum[0][0]\<close> is 0.0. And two calls of \<open>setVisits\<close> with a container holding 1
  leave \<open>visitsSum[0][0] = 2\<close> over one visit.
\<close>

theorem marginals_counterexample:
  "map_option rewards_consistent
     (run (Experience 2 1)
        [Record 0 0 0 (Finite False 1), Record 0 0 1 (Finite False (2 ^ 53)),
         Record 0 0 1 (Finite True (2 ^ 53))]) = Some False \<and>
   \<not> visits_consistent
     (setVisits (table_of [[[1]]]) (setVisits (table_of [[[1]]]) (Experience 1 1)))"
  by (simp add: table_eval rewards_consistent_def visits_consistent_def dadd_examples
      del: dadd.simps)

text \<open>The second \<open>record\<close> of that run rounds: \<open>1 + 2 ^ 53\<close> is not a double.\<close>

lemma rounding_run_not_exact:
  "\<not> exact_run (Experience 2 1)
     [Record 0 0 0 (Finite False 1), Record 0 0 1 (Finite False (2 ^ 53)),
      Record 0 0 1 (Finite True (2 ^ 53))]"
  by (simp add: table_eval dadd_examples round_mag_1 round_mag_2p53 round_mag_2p53_1
      del: dadd.simps)

text \<open>
  C2, amended. After every sequence of \<open>record\<close> calls with indices in range and
  \<open>reset\<close> calls on a constructed table (so after each call of such a sequence), for
  \<open>s < S\<close> and \<open>a < A\<close>: \<open>visitsSum[s][a]\<close> is the sum over \<open>s1\<close> of
  \<open>visits[s][a][s1]\<close> (modulo \<open>2 ^ 64\<close>); and when no addition of the \<open>record\<close>
  calls rounds, the number \<open>rewardsSum[s][a]\<close> is the sum over \<open>s1\<close> of the numbers
  \<open>rewards[s][a][s1]\<close>, and \<open>rewardsSum[s][a]\<close> is the double that summing the row
  in the order of the indices gives, when that sum does not round either. In every case
  \<open>rewardsSum[s][a]\<close> is the rounded running sum of the rewards recorded for
  \<open>(s, a)\<close> since the last \<open>reset\<close>.
\<close>

theorem run_marginals:
  assumes "run (Experience n k) ops = Some e" "s < n" "a < k"
  shows "getVisitsSum e s a = sum_list (visits e ! s ! a) \<and>
         visits_consistent e \<and>
         (exact_run (Experience n k) ops \<longrightarrow>
            dval (getRewardSum e s a) = sum_list (map dval (rewards e ! s ! a)) \<and>
            (exact_sum (Finite False 0) (rewards e ! s ! a) \<longrightarrow>
               getRewardSum e s a = dsum (rewards e ! s ! a))) \<and>
         getRewardSum e s a = recorded_rewards s a (Finite False 0) ops \<and>
         well_shaped e \<and> S e = n \<and> A e = k"
proof -
  from run_visits_consistent [OF well_shaped_Experience visits_consistent_Experience assms(1)]
  have inv: "well_shaped e" "visits_consistent e" "S e = n" "A e = k" by simp_all
  with assms(2,3) have "getVisitsSum e s a = sum_list (visits e ! s ! a)"
    by (simp add: visits_consistent_iff getVisitsSum_def)
  moreover have "rewardsSum e ! s ! a =
      recorded_rewards s a (rewardsSum (Experience n k) ! s ! a) ops"
    using well_shaped_Experience assms(1) by (rule run_rewardsSum) (simp_all add: assms)
  then have "getRewardSum e s a = recorded_rewards s a (Finite False 0) ops"
    using assms(2,3) by (simp add: getRewardSum_def Experience_def)
  moreover have "dval (getRewardSum e s a) = sum_list (map dval (rewards e ! s ! a)) \<and>
      (exact_sum (Finite False 0) (rewards e ! s ! a) \<longrightarrow>
         getRewardSum e s a = dsum (rewards e ! s ! a))"
    if er: "exact_run (Experience n k) ops"
  proof -
    have re: "rewards_exact e"
      using well_shaped_Experience rewards_exact_Experience assms(1) er
      by (rule run_rewards_exact)
    with assms(2,3) inv(3,4) show ?thesis
      by (auto simp: getRewardSum_def rewards_exact_iff intro: rewards_exact_dsum)
  qed
  ultimately show ?thesis using inv by blast
qed

theorem run_marginals_witness:
  "run (Experience 2 1)
     [Record 0 0 1 (Finite False 1), Record 0 0 1 (Finite False 1),
      Record 0 0 0 (Finite True 1)] =
   Some \<lparr>S = 2, A = 1, visits = [[[1, 2]], [[0, 0]]], visitsSum = [[3], [0]],
     rewards = [[[Finite True 1, Finite False 2]], [[Finite False 0, Finite False 0]]],
     rewardsSum = [[Finite False 1], [Finite False 0]]\<rparr> \<and>
   exact_run (Experience 2 1)
     [Record 0 0 1 (Finite False 1), Record 0 0 1 (Finite False 1),
      Record 0 0 0 (Finite True 1)] \<and>
   exact_sum (Finite False 0) [Finite True 1, Finite False 2] \<and>
   getVisitsSum \<lparr>S = 2, A = 1, visits = [[[1, 2]], [[0, 0]]], visitsSum = [[3], [0]],
     rewards = [[[Finite True 1, Finite False 2]], [[Finite False 0, Finite False 0]]],
     rewardsSum = [[Finite False 1], [Finite False 0]]\<rparr> 0 0 = sum_list [1, 2] \<and>
   getRewardSum \<lparr>S = 2, A = 1, visits = [[[1, 2]], [[0, 0]]], visitsSum = [[3], [0]],
     rewards = [[[Finite True 1, Finite False 2]], [[Finite False 0, Finite False 0]]],
     rewardsSum = [[Finite False 1], [Finite False 0]]\<rparr> 0 0 =
     dsum [Finite True 1, Finite False 2] \<and>
   dval (getRewardSum \<lparr>S = 2, A = 1, visits = [[[1, 2]], [[0, 0]]], visitsSum = [[3], [0]],
     rewards = [[[Finite True 1, Finite False 2]], [[Finite False 0, Finite False 0]]],
     rewardsSum = [[Finite False 1], [Finite False 0]]\<rparr> 0 0) =
     sum_list (map dval [Finite True 1, Finite False 2])"
proof -
  let ?ops = "[Record 0 0 1 (Finite False 1), Record 0 0 1 (Finite False 1),
      Record 0 0 0 (Finite True 1)]"
  let ?e = "\<lparr>S = 2, A = 1, visits = [[[1, 2]], [[0, 0]]], visitsSum = [[3], [0]],
     rewards = [[[Finite True 1, Finite False 2]], [[Finite False 0, Finite False 0]]],
     rewardsSum = [[Finite False 1], [Finite False 0]]\<rparr>"
  have r: "run (Experience 2 1) ?ops = Some ?e"
    by (simp add: table_eval dadd_examples dadd_examples_signed del: dadd.simps)
  have er: "exact_run (Experience 2 1) ?ops"
    by (simp add: table_eval dadd_examples dadd_examples_signed round_mag_1 round_mag_2
        del: dadd.simps)
  have row: "rewards ?e ! 0 ! 0 = [Finite True 1, Finite False 2]"
    "visits ?e ! 0 ! 0 = [1, 2]" by simp_all
  have es: "exact_sum (Finite False 0) (rewards ?e ! 0 ! 0)"
    by (simp add: dadd_examples_signed round_mag_1 del: dadd.simps)
  have b: "(0 :: nat) < 2" "(0 :: nat) < 1" by simp_all
  from run_marginals [OF r b] er es
  have "getVisitsSum ?e 0 0 = sum_list (visits ?e ! 0 ! 0)"
    "getRewardSum ?e 0 0 = dsum (rewards ?e ! 0 ! 0)"
    "dval (getRewardSum ?e 0 0) = sum_list (map dval (rewards ?e ! 0 ! 0))"
    by blast+
  with r er es show ?thesis
    by (simp only: row)
qed

section \<open>Doubles: comparisons\<close>

lemma fabs_pack: "fabs (pack s x) = pack False x"
  by (simp add: pack_def split: option.splits)

lemma fabs_dsub_commute: "fabs (dsub a b) = fabs (dsub b a)"
proof (cases a; cases b)
  fix s m t n assume ab: "a = Finite s m" "b = Finite t n"
  define x where "x = valof s m + valof (\<not> t) n"
  have y: "valof t n + valof (\<not> s) m = - x" by (auto simp: x_def)
  have "fabs (dsub a b) = (if x = 0 then Finite False 0 else pack False \<bar>x\<bar>)"
    using ab by (simp add: dsub_def x_def fabs_pack Let_def del: valof.simps)
  moreover have "fabs (dsub b a) = (if x = 0 then Finite False 0 else pack False \<bar>x\<bar>)"
    using ab y by (simp add: dsub_def fabs_pack Let_def del: valof.simps)
  ultimately show ?thesis by simp
qed (auto simp: dsub_def)

lemma std_min_fabs_commute:
  assumes "a \<noteq> NaN" "b \<noteq> NaN"
  shows "std_min (fabs a) (fabs b) = std_min (fabs b) (fabs a)"
  using assms by (cases a; cases b) (auto simp: std_min_def)

lemma checkEqualGeneral_NaN:
  assumes "a = NaN \<or> b = NaN"
  shows "\<not> checkEqualGeneral a b"
proof -
  from assms have "dsub a b = NaN"
    by (cases a; cases b) (auto simp: dsub_def)
  then show ?thesis
    by (simp add: checkEqualGeneral_def checkEqualSmall_def)
qed

lemma floor_log2_5eps: "floor_log2 (5 / 4503599627370496) = - 50"
  by code_simp

lemma five_epsilon: "dmul (Finite False 5) epsilon = Finite False (5 / 2 ^ 52)"
  by (simp add: epsilon_def pack_def round_mag_def floor_log2_5eps pow2_def round_half_even_def Let_def)

lemma dless_asym: "dless a b \<Longrightarrow> \<not> dless b a"
  by (cases a; cases b) auto

lemma dless_irrefl: "\<not> dless a a"
  by (cases a) auto

text \<open>
  On vectors of doubles (the toolbox's \<open>Vector\<close>) \<open>veccmp\<close> is antisymmetric as well,
  NaN entries included: a comparison with a NaN is false both ways.
\<close>

lemma veccmp_double:
  fixes a b v :: "double list"
  shows "(length a = length b \<longrightarrow>
            (\<exists>r. veccmp a b = Some r \<and> veccmp b a = Some (- r))) \<and>
         veccmp v v = Some 0"
proof (intro conjI impI)
  assume len: "length a = length b"
  have "veccmp_loop b a 0 = - veccmp_loop a b 0"
    using len by (rule veccmp_loop_neg) (auto simp: less_double_def dest: dless_asym)
  with len show "\<exists>r. veccmp a b = Some r \<and> veccmp b a = Some (- r)"
    by (simp add: veccmp_def)
next
  have "veccmp_loop v v 0 = 0"
    by (rule veccmp_loop_no_difference) (simp add: less_double_def dless_irrefl)
  then show "veccmp v v = Some 0"
    by (simp add: veccmp_def)
qed

text \<open>
  C7. \<open>checkEqualGeneral\<close> is symmetric on all doubles (NaN, infinities and zeros
  included): \<open>checkEqualGeneral a b = checkEqualGeneral b a\<close>, where
  \<open>checkEqualGeneral a b\<close> is true if \<open>|a - b| \<le> 5 * epsilon\<close> and otherwise true
  iff \<open>|a - b| / min(|a|, |b|) < epsilon\<close>.
\<close>

theorem checkEqualGeneral_symmetric:
  "checkEqualGeneral a b = checkEqualGeneral b a \<and>
   (checkEqualGeneral a b \<longleftrightarrow>
      dle (fabs (dsub a b)) (dmul (Finite False 5) epsilon) \<or>
      dless (ddiv (fabs (dsub a b)) (std_min (fabs a) (fabs b))) epsilon)"
proof -
  have sym: "checkEqualGeneral a b = checkEqualGeneral b a"
  proof (cases "a = NaN \<or> b = NaN")
    case True
    then have "\<not> checkEqualGeneral a b"
      by (rule checkEqualGeneral_NaN)
    moreover from True have "b = NaN \<or> a = NaN" by blast
    then have "\<not> checkEqualGeneral b a"
      by (rule checkEqualGeneral_NaN)
    ultimately show ?thesis by simp
  next
    case False
    then have "std_min (fabs a) (fabs b) = std_min (fabs b) (fabs a)"
      by (intro std_min_fabs_commute) auto
    then show ?thesis
      by (simp add: checkEqualGeneral_def checkEqualSmall_def fabs_dsub_commute [of a b])
  qed
  moreover have "checkEqualGeneral a b \<longleftrightarrow>
      dle (fabs (dsub a b)) (dmul (Finite False 5) epsilon) \<or>
      dless (ddiv (fabs (dsub a b)) (std_min (fabs a) (fabs b))) epsilon"
    by (simp add: checkEqualGeneral_def checkEqualSmall_def)
  ultimately show ?thesis by simp
qed

text \<open>
  C9. For \<open>a == 0\<close> (either zero) and a finite double \<open>b\<close> with
  \<open>|b| > 5 * epsilon\<close>, the small-tolerance test fails, \<open>min(|a|, |b|)\<close> is zero, the
  division by it yields the positive infinity instead of a fault, and
  \<open>checkEqualGeneral a b\<close> is false.
\<close>

theorem checkEqualGeneral_zero:
  assumes "is_zero a" "is_double b" "is_finite b"
    and "dless (dmul (Finite False 5) epsilon) (fabs b)"
  shows "\<not> checkEqualSmall a b \<and>
         std_min (fabs a) (fabs b) = Finite False 0 \<and>
         ddiv (fabs (dsub a b)) (std_min (fabs a) (fabs b)) = Infinity False \<and>
         \<not> checkEqualGeneral a b"
proof -
  from assms(1) obtain s where a: "a = Finite s 0" by (cases a) auto
  from assms(3) obtain t n where b: "b = Finite t n" by (cases b) auto
  from assms(4) b have big: "5 / 2 ^ 52 < n" by (simp add: five_epsilon)
  then have pos: "0 < n" by (rule less_trans [rotated]) simp
  with assms(2) b have exact: "round_mag n = Some n" by simp
  have diff: "fabs (dsub a b) = Finite False n"
    using a b pos exact by (auto simp: dsub_def fabs_pack pack_def)
  have small: "\<not> checkEqualSmall a b"
    using big by (simp add: checkEqualSmall_def diff five_epsilon)
  have mn: "std_min (fabs a) (fabs b) = Finite False 0"
    using a b pos by (simp add: std_min_def)
  have quot: "ddiv (fabs (dsub a b)) (std_min (fabs a) (fabs b)) = Infinity False"
    using pos by (simp add: diff mn)
  have "\<not> checkEqualGeneral a b"
    using small by (simp add: checkEqualGeneral_def quot epsilon_def)
  with small mn quot show ?thesis by simp
qed

theorem checkEqualGeneral_zero_witness:
  "is_zero (Finite False 0) \<and> is_double (Finite True 1) \<and> is_finite (Finite True 1) \<and>
   dless (dmul (Finite False 5) epsilon) (fabs (Finite True 1)) \<and>
   ddiv (fabs (dsub (Finite False 0) (Finite True 1)))
     (std_min (fabs (Finite False 0)) (fabs (Finite True 1))) = Infinity False \<and>
   \<not> checkEqualGeneral (Finite False 0) (Finite True 1)"
proof -
  have h: "is_zero (Finite False 0)" "is_double (Finite True 1)" "is_finite (Finite True 1)"
    "dless (dmul (Finite False 5) epsilon) (fabs (Finite True 1))"
    by (simp_all add: round_mag_1 five_epsilon)
  from checkEqualGeneral_zero [OF h] h show ?thesis by blast
qed

end
